theory Spec2Isabelle
  imports Main "HOL-Library.Word"
begin

section \<open>Bytes, errors and the helpers of firebirdsql.utils\<close>

type_synonym byte = "8 word"
type_synonym bytes = "byte list"

text \<open>
  The exceptions the wire protocol can end with. \<open>OperationalError\<close>, \<open>InternalError\<close> and
  \<open>DisconnectByPeer\<close> are raised by wireprotocol.py itself; \<open>ValueError\<close>, \<open>TypeError\<close>,
  \<open>NameError\<close> and \<open>ConversionError\<close> are the exceptions of the Python runtime and of
  xdrlib that its statements can end with; \<open>UnicodeEncodeError\<close> and \<open>LookupError\<close> are
  those of \<open>s.encode(charset)\<close>, for text the character set cannot encode and for a
  character set Python does not know.
\<close>

datatype error =
    OperationalError
  | InternalError
  | DisconnectByPeer
  | ValueError
  | TypeError
  | NameError
  | ConversionError
  | UnicodeEncodeError
  | LookupError

text \<open>
  Modelled from the spec: \<open>bs\<close> is imported from firebirdsql.utils, which is not among the
  sources. It turns a list of integers into a byte string; a byte string holds values
  0..255 only, so any other element is the \<open>ValueError\<close> of Python's \<open>bytes\<close>.
\<close>

definition bs :: "int list \<Rightarrow> error + bytes" where
  "bs xs = (if list_all (\<lambda>x. 0 \<le> x \<and> x < 256) xs then Inr (map word_of_int xs)
            else Inl ValueError)"

text \<open>
  Modelled from the spec: \<open>bint_to_bytes\<close> and \<open>bytes_to_bint\<close> are imported from
  firebirdsql.utils, which is not among the sources. The spec (4.2) has them pack and
  unpack big-endian signed integers: two's complement, most significant byte first.
\<close>

definition bint_to_bytes :: "int \<Rightarrow> nat \<Rightarrow> bytes" where
  "bint_to_bytes v n = map (\<lambda>k. word_of_int (v div 256 ^ k)) (rev [0..<n])"

definition bytes_to_uint :: "bytes \<Rightarrow> int" where
  "bytes_to_uint b = foldl (\<lambda>acc x. acc * 256 + uint x) 0 b"

definition bytes_to_bint :: "bytes \<Rightarrow> int" where
  "bytes_to_bint b =
     (let u = bytes_to_uint b
      in if 256 ^ length b \<le> 2 * u then u - 256 ^ length b else u)"

section \<open>Date and time conversion\<close>

record date =
  year :: int
  month :: int
  day :: int

record time =
  hour :: int
  minute :: int
  second :: int
  microsecond :: int

text \<open>\<open>convert_date\<close>, statement by statement; \<open>jy\<close> is assigned twice in the source.\<close>

definition convert_date :: "date \<Rightarrow> bytes" where
  "convert_date v =
     (let i = month v + 9;
          jy = year v + (i div 12) - 1;
          jm = i mod 12;
          c = jy div 100;
          jy = jy - 100 * c;
          j = (146097 * c) div 4 + (1461 * jy) div 4 + (153 * jm + 2) div 5 + day v - 678882
      in bint_to_bytes j 4)"

definition convert_time :: "time \<Rightarrow> bytes" where
  "convert_time v =
     (let t = (hour v * 3600 + minute v * 60 + second v) * 10000 + microsecond v div 100
      in bint_to_bytes t 4)"

text \<open>A \<open>datetime.datetime\<close> is its date and its time; \<open>v.date()\<close> and \<open>v.time()\<close> project.\<close>

definition convert_timestamp :: "date \<times> time \<Rightarrow> bytes" where
  "convert_timestamp v = convert_date (fst v) @ convert_time (snd v)"

text \<open>The values Python's \<open>datetime.date\<close> and \<open>datetime.time\<close> can hold.\<close>

definition valid_date :: "date \<Rightarrow> bool" where
  "valid_date d \<longleftrightarrow> 1 \<le> year d \<and> year d \<le> 9999 \<and> 1 \<le> month d \<and> month d \<le> 12
     \<and> 1 \<le> day d \<and> day d \<le> 31"

definition valid_time :: "time \<Rightarrow> bool" where
  "valid_time t \<longleftrightarrow> 0 \<le> hour t \<and> hour t \<le> 23 \<and> 0 \<le> minute t \<and> minute t \<le> 59
     \<and> 0 \<le> second t \<and> second t \<le> 59 \<and> 0 \<le> microsecond t \<and> microsecond t \<le> 999999"

text \<open>The spec's formulas (4.3.1), as closed expressions.\<close>

definition julian_offset :: "date \<Rightarrow> int" where
  "julian_offset d =
     146097 * ((year d + (month d + 9) div 12 - 1) div 100) div 4
     + 1461 * ((year d + (month d + 9) div 12 - 1) mod 100) div 4
     + (153 * ((month d + 9) mod 12) + 2) div 5 + day d - 678882"

definition time_ticks :: "time \<Rightarrow> int" where
  "time_ticks t = (hour t * 3600 + minute t * 60 + second t) * 10000 + microsecond t div 100"

section \<open>Facts about the byte helpers\<close>

lemma length_bint_to_bytes: "length (bint_to_bytes v n) = n"
  by (simp add: bint_to_bytes_def)

lemma uint_byte_of_int: "uint (word_of_int x :: byte) = x mod 256"
  by (simp add: uint_word_of_int)

lemma bint_to_bytes_4:
  "bint_to_bytes v 4 = [word_of_int (v div 16777216), word_of_int (v div 65536),
                        word_of_int (v div 256), word_of_int v]"
  by (simp add: bint_to_bytes_def upt_rec)

lemma bytes_to_uint_4:
  "bytes_to_uint [a, b, c, d] = ((uint a * 256 + uint b) * 256 + uint c) * 256 + uint d"
  by (simp add: bytes_to_uint_def)

lemma split_mod_256:
  "0 \<le> m \<Longrightarrow> (v::int) mod (256 * m) = 256 * (v div 256 mod m) + v mod 256"
  by (rule zmod_zmult2_eq)

lemma div_256_twice: "(v::int) div 256 div 256 = v div 65536"
  using zdiv_zmult2_eq [where a = v and b = 256 and c = 256] by simp

lemma div_256_thrice: "(v::int) div 65536 div 256 = v div 16777216"
  using zdiv_zmult2_eq [where a = v and b = 65536 and c = 256] by simp

lemma mod_word32_split:
  "(v::int) mod 4294967296 = 256 * (v div 256 mod 16777216) + v mod 256"
  using split_mod_256 [where v = v and m = 16777216] by simp

lemma mod_word24_split:
  "(v::int) div 256 mod 16777216 = 256 * (v div 65536 mod 65536) + v div 256 mod 256"
  using split_mod_256 [where v = "v div 256" and m = 65536] by (simp add: div_256_twice)

lemma mod_word16_split:
  "(v::int) div 65536 mod 65536 = 256 * (v div 16777216 mod 256) + v div 65536 mod 256"
  using split_mod_256 [where v = "v div 65536" and m = 256] by (simp add: div_256_thrice)

lemma uint_bint_to_bytes_4: "bytes_to_uint (bint_to_bytes v 4) = v mod 4294967296"
  unfolding bint_to_bytes_4 bytes_to_uint_4 uint_byte_of_int
    mod_word32_split mod_word24_split mod_word16_split
  by (simp add: algebra_simps)

lemma bytes_to_bint_bint_to_bytes_4:
  assumes "- 2147483648 \<le> v" "v < 2147483648"
  shows "bytes_to_bint (bint_to_bytes v 4) = v"
proof (cases "0 \<le> v")
  case True
  then have "v mod 4294967296 = v" using assms by simp
  then show ?thesis
    using assms True
    by (simp add: bytes_to_bint_def uint_bint_to_bytes_4 length_bint_to_bytes Let_def)
next
  case False
  have "(v + 4294967296) mod 4294967296 = v + 4294967296"
    using assms False by (intro mod_pos_pos_trivial) auto
  then have "v mod 4294967296 = v + 4294967296" by simp
  then show ?thesis
    using assms False
    by (simp add: bytes_to_bint_def uint_bint_to_bytes_4 length_bint_to_bytes Let_def)
qed

section \<open>Date and time: the encoding is the spec's\<close>

lemma int_div_bounds:
  assumes "0 \<le> (x::int)" "x \<le> n" "0 < k"
  shows "0 \<le> x div k" "x div k \<le> n"
proof -
  show "0 \<le> x div k" using assms by (simp add: div_int_pos_iff)
  have "x div k \<le> x div 1" using assms by (intro zdiv_mono2) auto
  then show "x div k \<le> n" using assms by simp
qed

lemma convert_date_julian: "convert_date d = bint_to_bytes (julian_offset d) 4"
proof -
  have h: "(y::int) - 100 * (y div 100) = y mod 100" for y
    by (simp add: minus_mult_div_eq_mod)
  show ?thesis
    unfolding convert_date_def julian_offset_def Let_def h by (rule refl)
qed

lemma julian_offset_range:
  assumes "valid_date d"
  shows "- 2147483648 \<le> julian_offset d \<and> julian_offset d < 2147483648"
proof -
  define i where "i = month d + 9"
  define y where "y = year d + i div 12 - 1"
  define A where "A = 146097 * (y div 100) div 4"
  define B where "B = 1461 * (y mod 100) div 4"
  define C where "C = (153 * (i mod 12) + 2) div 5"
  have dy: "1 \<le> day d" "day d \<le> 31" "1 \<le> year d" "year d \<le> 9999"
           "1 \<le> month d" "month d \<le> 12"
    using assms by (simp_all add: valid_date_def)
  have i: "10 \<le> i" "i \<le> 21" using dy by (simp_all add: i_def)
  have q: "0 \<le> i div 12" "i div 12 \<le> 1" using i by presburger+
  have y: "0 \<le> y" "y \<le> 9999" using dy q unfolding y_def by linarith+
  have c: "0 \<le> y div 100" "y div 100 \<le> 99" using y by presburger+
  have m: "0 \<le> y mod 100" "y mod 100 < 100" by simp_all
  have jm: "0 \<le> i mod 12" "i mod 12 < 12" by simp_all
  have a1: "0 \<le> 146097 * (y div 100)" "146097 * (y div 100) \<le> 14463603"
    using c by linarith+
  have b1: "0 \<le> 1461 * (y mod 100)" "1461 * (y mod 100) \<le> 146100"
    using m by linarith+
  have c1: "0 \<le> 153 * (i mod 12) + 2" "153 * (i mod 12) + 2 \<le> 1838"
    using jm by linarith+
  have A: "0 \<le> A" "A \<le> 14463603"
    unfolding A_def using int_div_bounds [OF a1, of 4] by simp_all
  have B: "0 \<le> B" "B \<le> 146100"
    unfolding B_def using int_div_bounds [OF b1, of 4] by simp_all
  have C: "0 \<le> C" "C \<le> 1838"
    unfolding C_def using int_div_bounds [OF c1, of 5] by simp_all
  have "julian_offset d = A + B + C + day d - 678882"
    unfolding julian_offset_def A_def B_def C_def y_def i_def by (rule refl)
  then show ?thesis
    using A B C dy by linarith
qed

lemma time_ticks_range:
  assumes "valid_time t"
  shows "0 \<le> time_ticks t \<and> time_ticks t < 2147483648"
proof -
  define u where "u = microsecond t div 100"
  have v: "0 \<le> hour t" "hour t \<le> 23" "0 \<le> minute t" "minute t \<le> 59"
          "0 \<le> second t" "second t \<le> 59" "0 \<le> microsecond t" "microsecond t \<le> 999999"
    using assms by (simp_all add: valid_time_def)
  have u: "0 \<le> u" "u \<le> 999999"
    unfolding u_def using int_div_bounds [OF v(7) v(8), of 100] by simp_all
  define s where "s = hour t * 3600 + minute t * 60 + second t"
  have s: "0 \<le> s" "s \<le> 86399"
    unfolding s_def using v by linarith+
  have "time_ticks t = s * 10000 + u"
    unfolding time_ticks_def u_def s_def by (rule refl)
  then show ?thesis
    using u s by linarith
qed

text \<open>
  Claim C4. For every date, \<open>convert_date\<close> is the 4-byte big-endian signed encoding of
  the modified Julian offset of the spec's formula (floor division throughout), and reading
  the four bytes back as a signed integer gives that offset; 1858-11-17 encodes offset 0.
  For every time, \<open>convert_time\<close> is the 4-byte big-endian encoding of
  (h*3600 + m*60 + s)*10000 + microsecond div 100, and reads back as that number;
  \<open>convert_timestamp\<close> is the date bytes followed by the time bytes.
\<close>

theorem convert_date_time_spec:
  assumes "valid_date d" and "valid_time t"
  shows "convert_date d = bint_to_bytes (julian_offset d) 4
       \<and> length (convert_date d) = 4
       \<and> bytes_to_bint (convert_date d) = julian_offset d
       \<and> julian_offset \<lparr>year = 1858, month = 11, day = 17\<rparr> = 0
       \<and> convert_date \<lparr>year = 1858, month = 11, day = 17\<rparr> = [0, 0, 0, 0]
       \<and> convert_time t = bint_to_bytes (time_ticks t) 4
       \<and> length (convert_time t) = 4
       \<and> bytes_to_bint (convert_time t) = time_ticks t
       \<and> convert_timestamp (d, t) = convert_date d @ convert_time t"
proof -
  have d1: "convert_date d = bint_to_bytes (julian_offset d) 4"
    by (rule convert_date_julian)
  have d2: "bytes_to_bint (convert_date d) = julian_offset d"
    using julian_offset_range [OF assms(1)] bytes_to_bint_bint_to_bytes_4
    by (simp add: d1)
  have z: "julian_offset \<lparr>year = 1858, month = 11, day = 17\<rparr> = 0"
    by (simp add: julian_offset_def)
  have z2: "convert_date \<lparr>year = 1858, month = 11, day = 17\<rparr> = [0, 0, 0, 0]"
    by (simp add: convert_date_julian z bint_to_bytes_4)
  have t1: "convert_time t = bint_to_bytes (time_ticks t) 4"
    by (simp add: convert_time_def time_ticks_def Let_def)
  have t2: "bytes_to_bint (convert_time t) = time_ticks t"
    using time_ticks_range [OF assms(2)] bytes_to_bint_bint_to_bytes_4
    by (simp add: t1)
  show ?thesis
    using d1 d2 z z2 t1 t2
    by (simp add: length_bint_to_bytes convert_timestamp_def)
qed

theorem convert_date_time_spec_witness:
  "convert_date \<lparr>year = 2020, month = 1, day = 1\<rparr> = [0, 0, 229, 225]
   \<and> bytes_to_bint (convert_date \<lparr>year = 2020, month = 1, day = 1\<rparr>) = 58849
   \<and> convert_time \<lparr>hour = 0, minute = 0, second = 1, microsecond = 500\<rparr> = [0, 0, 39, 21]
   \<and> convert_timestamp (\<lparr>year = 2020, month = 1, day = 1\<rparr>,
        \<lparr>hour = 0, minute = 0, second = 1, microsecond = 500\<rparr>) = [0, 0, 229, 225, 0, 0, 39, 21]"
proof -
  let ?d = "\<lparr>year = 2020, month = 1, day = 1\<rparr>"
  let ?t = "\<lparr>hour = 0, minute = 0, second = 1, microsecond = 500\<rparr>"
  have vd: "valid_date ?d"
    by (simp add: valid_date_def)
  have vt: "valid_time ?t"
    by (simp add: valid_time_def)
  note th = convert_date_time_spec [OF vd vt]
  have j: "julian_offset ?d = 58849" by (simp add: julian_offset_def)
  have k: "time_ticks ?t = 10005" by (simp add: time_ticks_def)
  have 1: "convert_date ?d = [0, 0, 229, 225]"
    using th by (simp add: j bint_to_bytes_4)
  from th have r: "bytes_to_bint (convert_date ?d) = julian_offset ?d"
    by blast
  have 2: "bytes_to_bint (convert_date ?d) = 58849"
    unfolding r j by (rule refl)
  have 3: "convert_time ?t = [0, 0, 39, 21]"
    using th by (simp add: k bint_to_bytes_4)
  have 4: "convert_timestamp (?d, ?t) = convert_date ?d @ convert_time ?t"
    using th by simp
  show ?thesis
    unfolding 4 using 1 2 3 by simp
qed

section \<open>The receiving side of the socket\<close>

text \<open>
  What the peer delivers, in order: a \<open>Chunk\<close> of bytes becomes readable (an empty chunk is
  the empty read of a closed stream), or the stream stays silent for longer than a
  configured timeout (\<open>Stall\<close>). After the last event the stream is closed.
\<close>

datatype event = Chunk bytes | Stall

record rx =
  inbox :: "event list"
  has_timeout :: bool

text \<open>
  \<open>self.sock.recv(n)\<close>, for a positive \<open>n\<close>: it blocks through silence, returns at most
  \<open>n\<close> bytes of what is readable and leaves the rest, and returns the empty string once
  the stream is closed.
\<close>

fun sock_recv :: "nat \<Rightarrow> event list \<Rightarrow> bytes \<times> event list" where
  "sock_recv n [] = ([], [])"
| "sock_recv n (Stall # es) = sock_recv n es"
| "sock_recv n (Chunk c # es) =
     (take n c, if length c \<le> n then es else Chunk (drop n c) # es)"

text \<open>\<open>select.select([sock], [], [], timeout)[0] == []\<close>: nothing readable in time.\<close>

fun select_empty :: "event list \<Rightarrow> bool" where
  "select_empty (Stall # es) = True"
| "select_empty es = False"

fun evsize :: "event list \<Rightarrow> nat" where
  "evsize [] = 0"
| "evsize (Stall # es) = Suc (evsize es)"
| "evsize (Chunk c # es) = Suc (length c + evsize es)"

lemma sock_recv_evsize:
  "sock_recv n es = (b, es') \<Longrightarrow> evsize es' \<le> evsize es"
  by (induction n es rule: sock_recv.induct) (auto split: if_splits)

lemma sock_recv_evsize_less:
  "sock_recv n es = (b, es') \<Longrightarrow> b \<noteq> [] \<Longrightarrow> evsize es' < evsize es"
  by (induction n es rule: sock_recv.induct) (auto split: if_splits)

text \<open>
  The \<open>while n:\<close> loop of \<open>recv_channel\<close>. A negative \<open>n\<close> reaches \<open>recv\<close>, which
  refuses a negative buffer size with a \<open>ValueError\<close>.
\<close>

function recv_loop :: "bool \<Rightarrow> int \<Rightarrow> bytes \<Rightarrow> event list \<Rightarrow> (error + bytes) \<times> event list" where
  "recv_loop tmo n r es =
     (if n = 0 then (Inr r, es)
      else if tmo \<and> select_empty es then (Inr r, tl es)
      else if n < 0 then (Inl ValueError, es)
      else (case sock_recv (nat n) es of
              (b, es') \<Rightarrow>
                if b = [] then (Inr r, es')
                else recv_loop tmo (n - int (length b)) (r @ b) es'))"
  by pat_completeness auto
termination
  by (relation "measure (\<lambda>(tmo, n, r, es). evsize es)")
     (auto dest: sock_recv_evsize_less [OF sym])

declare recv_loop.simps [simp del]

text \<open>Python's \<open>r[:k]\<close>: a negative \<open>k\<close> counts from the end.\<close>

definition py_prefix :: "bytes \<Rightarrow> int \<Rightarrow> bytes" where
  "py_prefix r k = (if 0 \<le> k then take (nat k) r else take (length r - nat (- k)) r)"

definition recv_channel :: "int \<Rightarrow> bool \<Rightarrow> rx \<Rightarrow> (error + bytes) \<times> rx" where
  "recv_channel nbytes word_alignment s =
     (let n = nbytes;
          n = (if word_alignment \<and> n mod 4 \<noteq> 0 then n + (4 - nbytes mod 4) else n)
      in case recv_loop (has_timeout s) n [] (inbox s) of
           (Inl e, es) \<Rightarrow> (Inl e, s\<lparr>inbox := es\<rparr>)
         | (Inr r, es) \<Rightarrow>
             if int (length r) < nbytes then (Inl OperationalError, s\<lparr>inbox := es\<rparr>)
             else (Inr (py_prefix r nbytes), s\<lparr>inbox := es\<rparr>))"

text \<open>
  The bytes that a reader can obtain from a stream before it closes or, with a timeout
  configured, falls silent; and the number of bytes a read of \<open>n\<close> takes from the stream.
\<close>

fun avail :: "bool \<Rightarrow> event list \<Rightarrow> bytes" where
  "avail tmo [] = []"
| "avail tmo (Stall # es) = (if tmo then [] else avail tmo es)"
| "avail tmo (Chunk c # es) = (if c = [] then [] else c @ avail tmo es)"

definition pending :: "rx \<Rightarrow> bytes" where
  "pending s = avail (has_timeout s) (inbox s)"

definition padded :: "int \<Rightarrow> bool \<Rightarrow> int" where
  "padded n word_alignment = (if word_alignment \<and> n mod 4 \<noteq> 0 then n + (4 - n mod 4) else n)"

definition rxsize :: "rx \<Rightarrow> nat" where
  "rxsize s = evsize (inbox s)"

section \<open>The receive loop reads the stream in order\<close>

lemma sock_recv_avail:
  assumes "0 < n" and "tmo \<longrightarrow> \<not> select_empty es" and "sock_recv n es = (b, es')"
  shows "length b \<le> n \<and> (b = [] \<longrightarrow> avail tmo es = [])
         \<and> (b \<noteq> [] \<longrightarrow> avail tmo es = b @ avail tmo es')"
  using assms
proof (induction n es arbitrary: tmo rule: sock_recv.induct)
  case (1 n)
  then show ?case by simp
next
  case (2 n es)
  then have nt: "\<not> tmo" by simp
  have "length b \<le> n \<and> (b = [] \<longrightarrow> avail False es = [])
         \<and> (b \<noteq> [] \<longrightarrow> avail False es = b @ avail False es')"
    using 2 by (intro "2.IH") simp_all
  then show ?case using nt by simp
next
  case (3 n c es)
  then show ?case
    by (cases "length c \<le> n") auto
qed

lemma recv_loop_avail:
  assumes "0 \<le> n"
  shows "fst (recv_loop tmo n r es) = Inr (r @ take (nat n) (avail tmo es))
       \<and> (nat n \<le> length (avail tmo es) \<longrightarrow>
            avail tmo (snd (recv_loop tmo n r es)) = drop (nat n) (avail tmo es))"
  using assms
proof (induction tmo n r es rule: recv_loop.induct)
  case (1 tmo n r es)
  show ?case
  proof (cases "n = 0")
    case True
    then show ?thesis by (simp add: recv_loop.simps)
  next
    case n0: False
    show ?thesis
    proof (cases "tmo \<and> select_empty es")
      case True
      then obtain es0 where "es = Stall # es0"
        by (cases es rule: select_empty.cases) auto
      then show ?thesis
        using True n0 "1.prems" by (simp add: recv_loop.simps)
    next
      case ns: False
      have nsf: "(tmo \<and> select_empty es) = False" using ns by simp
      obtain b es' where sr: "sock_recv (nat n) es = (b, es')"
        by (cases "sock_recv (nat n) es")
      have npos: "0 < nat n" using n0 "1.prems" by simp
      have sa: "length b \<le> nat n \<and> (b = [] \<longrightarrow> avail tmo es = [])
         \<and> (b \<noteq> [] \<longrightarrow> avail tmo es = b @ avail tmo es')"
        using sock_recv_avail [OF npos _ sr, of tmo] ns by blast
      show ?thesis
      proof (cases "b = []")
        case True
        then show ?thesis
          using sa n0 "1.prems" sr npos by (simp add: recv_loop.simps [of tmo n r es] nsf)
      next
        case bne: False
        have "length b \<le> nat n" using sa by simp
        then have ge: "0 \<le> n - int (length b)" using "1.prems" by linarith
        have nl: "\<not> n < 0" using "1.prems" by simp
        note ih = "1.IH" [OF n0 ns nl sr [symmetric] bne ge]
        have av: "avail tmo es = b @ avail tmo es'" using sa bne by simp
        have nn: "nat (n - int (length b)) = nat n - length b" by simp
        have st: "recv_loop tmo n r es = recv_loop tmo (n - int (length b)) (r @ b) es'"
          using n0 nl sr bne by (simp add: recv_loop.simps [of tmo n r es] nsf)
        show ?thesis
          unfolding st using ih sa by (simp add: av nn)
      qed
    qed
  qed
qed

lemma recv_loop_evsize:
  "evsize (snd (recv_loop tmo n r es)) \<le> evsize es
   \<and> (\<forall>r'. fst (recv_loop tmo n r es) = Inr r' \<and> length r < length r'
        \<longrightarrow> evsize (snd (recv_loop tmo n r es)) < evsize es)"
proof (induction tmo n r es rule: recv_loop.induct)
  case (1 tmo n r es)
  show ?case
  proof (cases "n = 0 \<or> (tmo \<and> select_empty es) \<or> n < 0")
    case True
    then have st: "recv_loop tmo n r es =
        (if n = 0 then (Inr r, es)
         else if tmo \<and> select_empty es then (Inr r, tl es) else (Inl ValueError, es))"
      by (auto simp: recv_loop.simps [of tmo n r es])
    have "evsize (tl es) \<le> evsize es"
      by (cases es rule: evsize.cases) simp_all
    then show ?thesis
      unfolding st by auto
  next
    case False
    then have n0: "n \<noteq> 0" and ns: "\<not> (tmo \<and> select_empty es)" and nl: "\<not> n < 0"
      by auto
    have nsf: "(tmo \<and> select_empty es) = False" using ns by simp
    obtain b es' where sr: "sock_recv (nat n) es = (b, es')"
      by (cases "sock_recv (nat n) es")
    show ?thesis
    proof (cases "b = []")
      case True
      then show ?thesis
        using n0 nl sr sock_recv_evsize [OF sr]
        by (simp add: recv_loop.simps [of tmo n r es] nsf)
    next
      case bne: False
      note ih = "1.IH" [OF n0 ns nl sr [symmetric] bne]
      have st: "recv_loop tmo n r es = recv_loop tmo (n - int (length b)) (r @ b) es'"
        using n0 nl sr bne by (simp add: recv_loop.simps [of tmo n r es] nsf)
      show ?thesis
        unfolding st using ih sock_recv_evsize_less [OF sr bne] by auto
    qed
  qed
qed

lemma padded_nonneg: "0 \<le> n \<Longrightarrow> 0 \<le> padded n al \<and> n \<le> padded n al"
proof -
  have "0 \<le> n mod 4" "n mod 4 < 4" by simp_all
  then show "0 \<le> n \<Longrightarrow> 0 \<le> padded n al \<and> n \<le> padded n al"
    unfolding padded_def by auto
qed

lemma recv_channel_pending:
  assumes "0 \<le> n"
  shows "(int (length (pending s)) < n \<longrightarrow> fst (recv_channel n al s) = Inl OperationalError)
       \<and> (n \<le> int (length (pending s)) \<longrightarrow>
            fst (recv_channel n al s) = Inr (take (nat n) (pending s)))
       \<and> (padded n al \<le> int (length (pending s)) \<longrightarrow>
            pending (snd (recv_channel n al s)) = drop (nat (padded n al)) (pending s))
       \<and> has_timeout (snd (recv_channel n al s)) = has_timeout s"
proof -
  let ?m = "padded n al"
  have m: "0 \<le> ?m" "n \<le> ?m" using padded_nonneg [OF assms] by simp_all
  obtain res es' where rl: "recv_loop (has_timeout s) ?m [] (inbox s) = (res, es')"
    by (cases "recv_loop (has_timeout s) ?m [] (inbox s)")
  have r: "res = Inr (take (nat ?m) (pending s))"
    and d: "nat ?m \<le> length (pending s) \<longrightarrow>
              avail (has_timeout s) es' = drop (nat ?m) (pending s)"
    using recv_loop_avail [OF m(1), of "has_timeout s" "[]" "inbox s"] rl
    by (simp_all add: pending_def)
  have rc: "recv_channel n al s =
      (if int (length (take (nat ?m) (pending s))) < n then (Inl OperationalError, s\<lparr>inbox := es'\<rparr>)
       else (Inr (py_prefix (take (nat ?m) (pending s)) n), s\<lparr>inbox := es'\<rparr>))"
    using rl r by (simp add: recv_channel_def padded_def Let_def)
  have p: "py_prefix (take (nat ?m) (pending s)) n = take (nat n) (pending s)"
    using assms m by (simp add: py_prefix_def min_def)
  show ?thesis
    using assms m d unfolding rc p by (auto simp: pending_def min_def)
qed

lemma recv_channel_rxsize:
  "rxsize (snd (recv_channel n al s)) \<le> rxsize s
   \<and> (\<forall>b. fst (recv_channel n al s) = Inr b \<and> 0 < n
         \<longrightarrow> rxsize (snd (recv_channel n al s)) < rxsize s)"
proof -
  let ?m = "if al \<and> n mod 4 \<noteq> 0 then n + (4 - n mod 4) else n"
  obtain res es' where rl: "recv_loop (has_timeout s) ?m [] (inbox s) = (res, es')"
    by (cases "recv_loop (has_timeout s) ?m [] (inbox s)")
  note ev = recv_loop_evsize [of "has_timeout s" ?m "[]" "inbox s", unfolded rl]
  show ?thesis
  proof (cases res)
    case (Inl e)
    then show ?thesis
      using rl ev by (simp add: recv_channel_def Let_def rxsize_def)
  next
    case (Inr r)
    then show ?thesis
      using rl ev by (auto simp: recv_channel_def Let_def rxsize_def)
  qed
qed

text \<open>
  Claim C8. \<open>recv_channel n align\<close>, for a byte count \<open>n\<close>: whatever it returns has
  exactly \<open>n\<close> bytes, the next \<open>n\<close> bytes of the stream; whenever the stream closes, or
  the configured timeout expires, before \<open>n\<close> bytes have arrived, it fails with an
  operational error and returns no short buffer; when \<open>n\<close> bytes do arrive it returns
  them; and when \<open>align\<close> is set and \<open>n\<close> is not a multiple of 4 it takes
  \<open>4 - n mod 4\<close> further bytes from the stream and drops them (when they arrive too).
\<close>

theorem recv_channel_exact:
  assumes "0 \<le> n"
  shows "(\<forall>b. fst (recv_channel n al s) = Inr b \<longrightarrow>
            int (length b) = n \<and> b = take (nat n) (pending s))
       \<and> (int (length (pending s)) < n \<longrightarrow> fst (recv_channel n al s) = Inl OperationalError)
       \<and> (n \<le> int (length (pending s)) \<longrightarrow>
            fst (recv_channel n al s) = Inr (take (nat n) (pending s)))
       \<and> (padded n al \<le> int (length (pending s)) \<longrightarrow>
            pending (snd (recv_channel n al s)) = drop (nat (padded n al)) (pending s))
       \<and> padded n al = (if al \<and> n mod 4 \<noteq> 0 then n + (4 - n mod 4) else n)"
proof -
  note p = recv_channel_pending [OF assms, of s al]
  have 1: "int (length b) = n \<and> b = take (nat n) (pending s)"
    if "fst (recv_channel n al s) = Inr b" for b
  proof (cases "int (length (pending s)) < n")
    case True
    then show ?thesis using p that by simp
  next
    case False
    then have "b = take (nat n) (pending s)" using p that by simp
    then show ?thesis using False assms by simp
  qed
  have c1: "\<forall>b. fst (recv_channel n al s) = Inr b \<longrightarrow>
            int (length b) = n \<and> b = take (nat n) (pending s)"
    using 1 by blast
  have c5: "padded n al = (if al \<and> n mod 4 \<noteq> 0 then n + (4 - n mod 4) else n)"
    by (simp add: padded_def)
  show ?thesis
    using c1 p c5 by blast
qed

theorem recv_channel_exact_witness:
  "fst (recv_channel 3 True \<lparr>inbox = [Chunk [1, 2], Stall, Chunk [3, 4, 5]], has_timeout = False\<rparr>)
     = Inr [1, 2, 3]
   \<and> pending (snd (recv_channel 3 True
        \<lparr>inbox = [Chunk [1, 2], Stall, Chunk [3, 4, 5]], has_timeout = False\<rparr>)) = [5]
   \<and> fst (recv_channel 3 True \<lparr>inbox = [Chunk [1, 2], Stall, Chunk [3, 4, 5]], has_timeout = True\<rparr>)
     = Inl OperationalError"
proof -
  let ?a = "\<lparr>inbox = [Chunk [1, 2], Stall, Chunk [3, 4, 5]], has_timeout = False\<rparr>"
  let ?b = "\<lparr>inbox = [Chunk [1, 2], Stall, Chunk [3, 4, 5]], has_timeout = True\<rparr>"
  have pa: "pending ?a = [1, 2, 3, 4, 5]" and pb: "pending ?b = [1, 2]"
    by (simp_all add: pending_def)
  have pd: "padded 3 True = 4" by (simp add: padded_def)
  have n: "(0::int) \<le> 3" by simp
  note ta = recv_channel_exact [OF n, of True ?a, unfolded pa pd]
  note tb = recv_channel_exact [OF n, of True ?b, unfolded pb pd]
  have 1: "fst (recv_channel 3 True ?a) = Inr [1, 2, 3]"
    using ta [THEN conjunct2, THEN conjunct2, THEN conjunct1] by simp
  have 2: "pending (snd (recv_channel 3 True ?a)) = [5]"
    using ta [THEN conjunct2, THEN conjunct2, THEN conjunct2, THEN conjunct1] by simp
  have 3: "fst (recv_channel 3 True ?b) = Inl OperationalError"
    using tb [THEN conjunct2, THEN conjunct1] by simp
  show ?thesis
    using 1 2 3 by (intro conjI)
qed

section \<open>What wireprotocol.py imports\<close>

text \<open>
  The constants of firebirdsql.consts, the message catalogue of firebirdsql.fberrmsgs and
  the character set of the connection are not among the sources, and the spec gives them
  no values: the model takes them as parameters. \<open>py_str\<close> is Python's \<open>str\<close> on a byte
  string (the text itself in Python 2, its \<open>b'...'\<close> form in Python 3), \<open>str_to_bytes\<close>
  the method of that name, \<open>s.encode(charset)\<close> in the connection's character set, which
  raises for text it cannot encode, \<open>int_to_bytes\<close> the helper of firebirdsql.utils of
  that name.
\<close>

record env =
  MAX_CHAR_LENGTH :: nat
  BLOB_SEGMENT_SIZE :: nat
  isc_arg_end :: int
  isc_arg_gds :: int
  isc_arg_number :: int
  isc_arg_string :: int
  isc_arg_interpreted :: int
  isc_arg_sql_state :: int
  messages :: "int \<Rightarrow> string option"
  py_str :: "bytes \<Rightarrow> string"
  str_to_bytes :: "string \<Rightarrow> error + bytes"
  int_to_bytes :: "int \<Rightarrow> nat \<Rightarrow> error + bytes"

text \<open>The opcodes are class attributes of \<open>WireProtocol\<close>.\<close>

definition op_response :: int where "op_response = 9"
definition op_detach :: int where "op_detach = 21"
definition op_transaction :: int where "op_transaction = 29"
definition op_commit :: int where "op_commit = 30"
definition op_rollback :: int where "op_rollback = 31"
definition op_put_segment :: int where "op_put_segment = 37"
definition op_close_blob :: int where "op_close_blob = 39"
definition op_info_database :: int where "op_info_database = 40"
definition op_que_events :: int where "op_que_events = 48"
definition op_cancel_events :: int where "op_cancel_events = 49"
definition op_commit_retaining :: int where "op_commit_retaining = 50"
definition op_connect_request :: int where "op_connect_request = 53"
definition op_create_blob2 :: int where "op_create_blob2 = 57"
definition op_allocate_statement :: int where "op_allocate_statement = 62"
definition op_execute :: int where "op_execute = 63"
definition op_exec_immediate :: int where "op_exec_immediate = 64"
definition op_fetch_response :: int where "op_fetch_response = 66"
definition op_dummy :: int where "op_dummy = 71"
definition op_sql_response :: int where "op_sql_response = 78"
definition op_drop_database :: int where "op_drop_database = 81"
definition op_service_detach :: int where "op_service_detach = 83"
definition op_service_info :: int where "op_service_info = 84"
definition op_service_start :: int where "op_service_start = 85"
definition op_rollback_retaining :: int where "op_rollback_retaining = 86"
definition buffer_length :: int where "buffer_length = 1024"

section \<open>Python strings\<close>

definition digit_char :: "nat \<Rightarrow> char" where
  "digit_char d = char_of (48 + d)"

fun nat_digits :: "nat \<Rightarrow> string" where
  "nat_digits n = (if n < 10 then [digit_char n] else nat_digits (n div 10) @ [digit_char (n mod 10)])"

declare nat_digits.simps [simp del]

text \<open>\<open>str(i)\<close> for an integer.\<close>

definition str_int :: "int \<Rightarrow> string" where
  "str_int i = (if i < 0 then CHR ''-'' # nat_digits (nat (- i)) else nat_digits (nat i))"

text \<open>
  \<open>s.replace(old, new)\<close>: every occurrence of \<open>old\<close>, left to right and without overlap.
  \<open>replace_scan\<close> walks the string; \<open>k\<close> counts the characters of a match still to skip.
\<close>

fun replace_scan :: "string \<Rightarrow> string \<Rightarrow> nat \<Rightarrow> string \<Rightarrow> string" where
  "replace_scan old new k [] = []"
| "replace_scan old new k (c # cs) =
     (if 0 < k then replace_scan old new (k - 1) cs
      else if take (length old) (c # cs) = old
           then new @ replace_scan old new (length old - 1) cs
           else c # replace_scan old new 0 cs)"

definition str_replace :: "string \<Rightarrow> string \<Rightarrow> string \<Rightarrow> string" where
  "str_replace s old new =
     (if old = [] then concat (map (\<lambda>c. new @ [c]) s) @ new else replace_scan old new 0 s)"

section \<open>The status vector\<close>

text \<open>
  The local variables of \<open>_parse_status_vector\<close>. \<open>gds_code\<close> and \<open>num_arg\<close> are not
  assigned before the loop: \<open>None\<close> is the unbound name, and reading it is a \<open>NameError\<close>.
\<close>

record sv_locals =
  sql_code :: int
  gds_codes :: "int set"
  message :: string
  gds_code :: "int option"
  num_arg :: "int option"

text \<open>The body of the loop for the item tagged \<open>n\<close>, up to the read of the next tag.\<close>

definition sv_item :: "env \<Rightarrow> int \<Rightarrow> sv_locals \<Rightarrow> rx \<Rightarrow> (error + sv_locals) \<times> rx" where
  "sv_item env n v s =
     (if n = isc_arg_gds env then
        (case recv_channel 4 False s of
           (Inl e, s1) \<Rightarrow> (Inl e, s1)
         | (Inr b, s1) \<Rightarrow>
             let g = bytes_to_bint b; v = v\<lparr>gds_code := Some g\<rparr>
             in if g \<noteq> 0
                then (Inr (v\<lparr>gds_codes := insert g (gds_codes v),
                            message := message v @ (case messages env g of None \<Rightarrow> ''@1'' | Some m \<Rightarrow> m),
                            num_arg := Some 0\<rparr>), s1)
                else (Inr v, s1))
      else if n = isc_arg_number env then
        (case recv_channel 4 False s of
           (Inl e, s1) \<Rightarrow> (Inl e, s1)
         | (Inr b, s1) \<Rightarrow>
             let num = bytes_to_bint b
             in (case gds_code v of
                   None \<Rightarrow> (Inl NameError, s1)
                 | Some g \<Rightarrow>
                     let v = (if g = 335544436 then v\<lparr>sql_code := num\<rparr> else v)
                     in (case num_arg v of
                           None \<Rightarrow> (Inl NameError, s1)
                         | Some k \<Rightarrow>
                             (Inr (v\<lparr>num_arg := Some (k + 1),
                                     message := str_replace (message v) (CHR ''@'' # str_int (k + 1))
                                                  (str_int num)\<rparr>), s1))))
      else if n = isc_arg_string env \<or> n = isc_arg_interpreted env \<or> n = isc_arg_sql_state env then
        (case recv_channel 4 False s of
           (Inl e, s1) \<Rightarrow> (Inl e, s1)
         | (Inr b, s1) \<Rightarrow>
             (case recv_channel (bytes_to_bint b) True s1 of
                (Inl e, s2) \<Rightarrow> (Inl e, s2)
              | (Inr raw, s2) \<Rightarrow>
                  (case num_arg v of
                     None \<Rightarrow> (Inl NameError, s2)
                   | Some k \<Rightarrow>
                       (Inr (v\<lparr>num_arg := Some (k + 1),
                               message := str_replace (message v) (CHR ''@'' # str_int (k + 1))
                                            (py_str env raw)\<rparr>), s2))))
      else if n = isc_arg_sql_state env then
        (case recv_channel 4 False s of
           (Inl e, s1) \<Rightarrow> (Inl e, s1)
         | (Inr b, s1) \<Rightarrow>
             (case recv_channel (bytes_to_bint b) True s1 of
                (Inl e, s2) \<Rightarrow> (Inl e, s2)
              | (Inr raw, s2) \<Rightarrow> (Inr v, s2)))
      else (Inr v, s))"

lemma recv_channel_le: "recv_channel n al s = (r, s') \<Longrightarrow> rxsize s' \<le> rxsize s"
  using recv_channel_rxsize [of n al s] by simp

lemma recv_channel_less:
  "recv_channel n al s = (Inr b, s') \<Longrightarrow> 0 < n \<Longrightarrow> rxsize s' < rxsize s"
  using recv_channel_rxsize [of n al s] by simp

lemma sv_item_le: "sv_item env n v s = (r, s') \<Longrightarrow> rxsize s' \<le> rxsize s"
  unfolding sv_item_def
  by (auto simp: Let_def split: if_splits prod.splits sum.splits option.splits
           dest!: recv_channel_le)

text \<open>The \<open>while n != isc_arg_end\<close> loop.\<close>

function sv_loop :: "env \<Rightarrow> int \<Rightarrow> sv_locals \<Rightarrow> rx \<Rightarrow> (error + sv_locals) \<times> rx" where
  "sv_loop env n v s =
     (if n = isc_arg_end env then (Inr v, s)
      else (case sv_item env n v s of
              (Inl e, s1) \<Rightarrow> (Inl e, s1)
            | (Inr v1, s1) \<Rightarrow>
                (case recv_channel 4 False s1 of
                   (Inl e, s2) \<Rightarrow> (Inl e, s2)
                 | (Inr b, s2) \<Rightarrow> sv_loop env (bytes_to_bint b) v1 s2)))"
  by pat_completeness auto
termination
proof (relation "measure (\<lambda>(env, n, v, s). rxsize s)", goal_cases)
  case 1
  show ?case by simp
next
  case (2 env n v s x s1 v1 xa s2 b)
  then have "sv_item env n v s = (Inr v1, s1)" "recv_channel 4 False s1 = (Inr b, s2)"
    by simp_all
  then have "rxsize s1 \<le> rxsize s" "rxsize s2 < rxsize s1"
    using sv_item_le recv_channel_less by (blast, force)
  then show ?case by simp
qed

declare sv_loop.simps [simp del]

definition parse_status_vector :: "env \<Rightarrow> rx \<Rightarrow> (error + int set \<times> int \<times> string) \<times> rx" where
  "parse_status_vector env s =
     (case recv_channel 4 False s of
        (Inl e, s1) \<Rightarrow> (Inl e, s1)
      | (Inr b, s1) \<Rightarrow>
          (case sv_loop env (bytes_to_bint b)
                  \<lparr>sql_code = 0, gds_codes = {}, message = [], gds_code = None, num_arg = None\<rparr> s1 of
             (Inl e, s2) \<Rightarrow> (Inl e, s2)
           | (Inr v, s2) \<Rightarrow> (Inr (gds_codes v, sql_code v, message v), s2)))"

section \<open>Response readers\<close>

lemma sv_loop_le: "sv_loop env n v s = (r, s') \<Longrightarrow> rxsize s' \<le> rxsize s"
proof (induction env n v s arbitrary: r s' rule: sv_loop.induct)
  case (1 env n v s)
  note pr = "1.prems" [unfolded sv_loop.simps [of env n v s]]
  show ?case
  proof (cases "n = isc_arg_end env")
    case True
    then show ?thesis using pr by simp
  next
    case ne: False
    obtain r1 s1 where it: "sv_item env n v s = (r1, s1)"
      by (cases "sv_item env n v s")
    note l1 = sv_item_le [OF it]
    show ?thesis
    proof (cases r1)
      case (Inl e)
      then show ?thesis
        using pr ne it l1 by simp
    next
      case (Inr v1)
      obtain r2 s2 where rc: "recv_channel 4 False s1 = (r2, s2)"
        by (cases "recv_channel 4 False s1")
      note l2 = recv_channel_le [OF rc]
      show ?thesis
      proof (cases r2)
        case (Inl e)
        then show ?thesis
          using pr ne it Inr rc l1 l2 by simp
      next
        case b: (Inr b)
        have "sv_loop env (bytes_to_bint b) v1 s2 = (r, s')"
          using pr ne it Inr rc b by simp
        then have "rxsize s' \<le> rxsize s2"
          using "1.IH" [OF ne it [symmetric] Inr rc [symmetric, unfolded b] ] b by blast
        then show ?thesis using l1 l2 by simp
      qed
    qed
  qed
qed

lemma parse_status_vector_le:
  "parse_status_vector env s = (r, s') \<Longrightarrow> rxsize s' \<le> rxsize s"
  unfolding parse_status_vector_def
  by (auto split: prod.splits sum.splits dest!: recv_channel_le sv_loop_le)

text \<open>\<open>_parse_op_response\<close>: handle, object id, buffer, then the status vector.\<close>

definition parse_op_response :: "env \<Rightarrow> rx \<Rightarrow> (error + int \<times> bytes \<times> bytes) \<times> rx" where
  "parse_op_response env s =
     (case recv_channel 16 False s of
        (Inl e, s1) \<Rightarrow> (Inl e, s1)
      | (Inr b, s1) \<Rightarrow>
          let h = bytes_to_bint (take 4 b);
              oid = take 8 (drop 4 b);
              buf_len = bytes_to_bint (drop 12 b)
          in (case recv_channel buf_len True s1 of
                (Inl e, s2) \<Rightarrow> (Inl e, s2)
              | (Inr buf, s2) \<Rightarrow>
                  (case parse_status_vector env s2 of
                     (Inl e, s3) \<Rightarrow> (Inl e, s3)
                   | (Inr (gds, sql, msg), s3) \<Rightarrow>
                       if sql \<noteq> 0 \<or> msg \<noteq> [] then (Inl OperationalError, s3)
                       else (Inr (h, oid, buf), s3))))"

lemma parse_op_response_le:
  "parse_op_response env s = (r, s') \<Longrightarrow> rxsize s' \<le> rxsize s"
  unfolding parse_op_response_def
  by (auto simp: Let_def split: prod.splits sum.splits if_splits
           dest!: recv_channel_le parse_status_vector_le)

text \<open>\<open>while bytes_to_bint(b) == self.op_dummy: b = self.recv_channel(4)\<close>\<close>

function skip_dummy :: "bytes \<Rightarrow> rx \<Rightarrow> (error + bytes) \<times> rx" where
  "skip_dummy b s =
     (if bytes_to_bint b = op_dummy
      then (case recv_channel 4 False s of
              (Inl e, s1) \<Rightarrow> (Inl e, s1)
            | (Inr b1, s1) \<Rightarrow> skip_dummy b1 s1)
      else (Inr b, s))"
  by pat_completeness auto
termination
proof (relation "measure (\<lambda>(b, s). rxsize s)", goal_cases)
  case 1
  show ?case by simp
next
  case (2 b s x s1 b1)
  then have "recv_channel 4 False s = (Inr b1, s1)" by simp
  then show ?case using recv_channel_less by force
qed

declare skip_dummy.simps [simp del]

lemma skip_dummy_le: "skip_dummy b s = (r, s') \<Longrightarrow> rxsize s' \<le> rxsize s"
proof (induction b s arbitrary: r s' rule: skip_dummy.induct)
  case (1 b s)
  note pr = "1.prems" [unfolded skip_dummy.simps [of b s]]
  show ?case
  proof (cases "bytes_to_bint b = op_dummy")
    case False
    then show ?thesis using pr by simp
  next
    case d: True
    obtain r1 s1 where rc: "recv_channel 4 False s = (r1, s1)"
      by (cases "recv_channel 4 False s")
    note l1 = recv_channel_le [OF rc]
    show ?thesis
    proof (cases r1)
      case (Inl e)
      then show ?thesis
        using pr d rc l1 by simp
    next
      case (Inr b1)
      have "skip_dummy b1 s1 = (r, s')"
        using pr d rc Inr by simp
      then have "rxsize s' \<le> rxsize s1"
        using "1.IH" [OF d rc [symmetric, unfolded Inr] ] Inr by blast
      then show ?thesis using l1 by simp
    qed
  qed
qed

text \<open>\<open>_op_response\<close>\<close>

definition op_response_call :: "env \<Rightarrow> rx \<Rightarrow> (error + int \<times> bytes \<times> bytes) \<times> rx" where
  "op_response_call env s =
     (case recv_channel 4 False s of
        (Inl e, s1) \<Rightarrow> (Inl e, s1)
      | (Inr b, s1) \<Rightarrow>
          (case skip_dummy b s1 of
             (Inl e, s2) \<Rightarrow> (Inl e, s2)
           | (Inr b, s2) \<Rightarrow>
               if bytes_to_bint b \<noteq> op_response then (Inl InternalError, s2)
               else parse_op_response env s2))"

lemma op_response_call_less:
  assumes "op_response_call env s = (Inr x, s')"
  shows "rxsize s' < rxsize s"
proof -
  obtain b s1 where rc: "recv_channel 4 False s = (Inr b, s1)"
    using assms unfolding op_response_call_def by (auto split: prod.splits sum.splits)
  obtain b2 s2 where sd: "skip_dummy b s1 = (Inr b2, s2)"
    using assms rc unfolding op_response_call_def by (auto split: prod.splits sum.splits)
  have "parse_op_response env s2 = (Inr x, s')"
    using assms rc sd unfolding op_response_call_def by (auto split: if_splits)
  then show ?thesis
    using recv_channel_less [OF rc] skip_dummy_le [OF sd] parse_op_response_le by fastforce
qed

text \<open>
  A column descriptor of the select list, as wireprotocol.py uses it: \<open>x.io_length()\<close>
  and the decoder \<open>x.value(raw_value)\<close>.
\<close>

record 'v xsqlvar =
  io_length :: int
  value_of :: "bytes \<Rightarrow> 'v"

text \<open>
  The \<open>for i in range(len(xsqlda))\<close> loop that reads one row; \<open>None\<close> is a NULL column.
\<close>

fun read_columns :: "'v xsqlvar list \<Rightarrow> rx \<Rightarrow> (error + 'v option list) \<times> rx" where
  "read_columns [] s = (Inr [], s)"
| "read_columns (x # xs) s =
     (case (if io_length x < 0
            then (case recv_channel 4 False s of
                    (Inl e, s1) \<Rightarrow> (Inl e, s1)
                  | (Inr b, s1) \<Rightarrow> (Inr (bytes_to_bint b), s1))
            else (Inr (io_length x), s)) of
        (Inl e, s1) \<Rightarrow> (Inl e, s1)
      | (Inr ln, s1) \<Rightarrow>
          (case recv_channel ln True s1 of
             (Inl e, s2) \<Rightarrow> (Inl e, s2)
           | (Inr raw_value, s2) \<Rightarrow>
               (case recv_channel 4 False s2 of
                  (Inl e, s3) \<Rightarrow> (Inl e, s3)
                | (Inr ind, s3) \<Rightarrow>
                    (case read_columns xs s3 of
                       (Inl e, s4) \<Rightarrow> (Inl e, s4)
                     | (Inr r, s4) \<Rightarrow>
                         (Inr ((if ind = [0, 0, 0, 0] then Some (value_of x raw_value) else None) # r),
                          s4)))))"

lemma read_columns_le: "read_columns xs s = (r, s') \<Longrightarrow> rxsize s' \<le> rxsize s"
proof (induction xs arbitrary: s r s')
  case Nil
  then show ?case by simp
next
  case (Cons x xs)
  show ?case
    using Cons.prems
    by (auto split: prod.splits sum.splits if_splits
             dest!: recv_channel_le Cons.IH)
qed

text \<open>The \<open>while count:\<close> loop of \<open>_op_fetch_response\<close>.\<close>

function fetch_rows ::
  "'v xsqlvar list \<Rightarrow> int \<Rightarrow> int \<Rightarrow> 'v option list list \<Rightarrow> rx
     \<Rightarrow> (error + 'v option list list \<times> int) \<times> rx" where
  "fetch_rows xsqlda count status rows s =
     (if count \<noteq> 0
      then (case read_columns xsqlda s of
              (Inl e, s1) \<Rightarrow> (Inl e, s1)
            | (Inr r, s1) \<Rightarrow>
                (case recv_channel 12 False s1 of
                   (Inl e, s2) \<Rightarrow> (Inl e, s2)
                 | (Inr b, s2) \<Rightarrow>
                     fetch_rows xsqlda (bytes_to_bint (drop 8 b))
                       (bytes_to_bint (take 4 (drop 4 b))) (rows @ [r]) s2))
      else (Inr (rows, status), s))"
  by pat_completeness auto
termination
proof (relation "measure (\<lambda>(xsqlda, count, status, rows, s). rxsize s)", goal_cases)
  case 1
  show ?case by simp
next
  case (2 xsqlda count status rows s x s1 r xa s2 b)
  then have "read_columns xsqlda s = (Inr r, s1)" "recv_channel 12 False s1 = (Inr b, s2)"
    by simp_all
  then have "rxsize s1 \<le> rxsize s" "rxsize s2 < rxsize s1"
    using read_columns_le recv_channel_less by (blast, force)
  then show ?case by simp
qed

declare fetch_rows.simps [simp del]

datatype 'v fetched = Response "int \<times> bytes \<times> bytes" | Rows "'v option list list" bool

text \<open>\<open>_op_fetch_response\<close>; the statement handle is not used by the source.\<close>

definition op_fetch_response_call ::
  "env \<Rightarrow> int \<Rightarrow> 'v xsqlvar list \<Rightarrow> rx \<Rightarrow> (error + 'v fetched) \<times> rx" where
  "op_fetch_response_call env stmt_handle xsqlda s =
     (case recv_channel 4 False s of
        (Inl e, s1) \<Rightarrow> (Inl e, s1)
      | (Inr b, s1) \<Rightarrow>
          (case skip_dummy b s1 of
             (Inl e, s2) \<Rightarrow> (Inl e, s2)
           | (Inr b, s2) \<Rightarrow>
               if bytes_to_bint b = op_response
               then (case parse_op_response env s2 of
                       (Inl e, s3) \<Rightarrow> (Inl e, s3)
                     | (Inr x, s3) \<Rightarrow> (Inr (Response x), s3))
               else if bytes_to_bint b \<noteq> op_fetch_response then (Inl InternalError, s2)
               else (case recv_channel 8 False s2 of
                       (Inl e, s3) \<Rightarrow> (Inl e, s3)
                     | (Inr b, s3) \<Rightarrow>
                         (case fetch_rows xsqlda (bytes_to_bint (take 4 (drop 4 b)))
                                 (bytes_to_bint (take 4 b)) [] s3 of
                            (Inl e, s4) \<Rightarrow> (Inl e, s4)
                          | (Inr (rows, status), s4) \<Rightarrow> (Inr (Rows rows (status \<noteq> 100)), s4)))))"

text \<open>\<open>_op_sql_response\<close>\<close>

definition op_sql_response_call ::
  "'v xsqlvar list \<Rightarrow> rx \<Rightarrow> (error + 'v option list) \<times> rx" where
  "op_sql_response_call xsqlda s =
     (case recv_channel 4 False s of
        (Inl e, s1) \<Rightarrow> (Inl e, s1)
      | (Inr b, s1) \<Rightarrow>
          (case skip_dummy b s1 of
             (Inl e, s2) \<Rightarrow> (Inl e, s2)
           | (Inr b, s2) \<Rightarrow>
               if bytes_to_bint b \<noteq> op_sql_response then (Inl InternalError, s2)
               else (case recv_channel 4 False s2 of
                       (Inl e, s3) \<Rightarrow> (Inl e, s3)
                     | (Inr b, s3) \<Rightarrow>
                         if bytes_to_bint (take 4 b) = 0 then (Inr [], s3)
                         else read_columns xsqlda s3)))"

section \<open>The sending side: XDR packing and the operations\<close>

text \<open>
  \<open>xdrlib.Packer\<close>. \<open>pack_int\<close> is \<open>struct.pack('>l', x)\<close>: it refuses \<open>None\<close> and an
  integer outside 32 bits. \<open>pack_bytes\<close> and \<open>pack_string\<close> are one function: the length
  as an unsigned word, the bytes, zeros up to the next multiple of four.
\<close>

definition pack_int :: "int option \<Rightarrow> error + bytes" where
  "pack_int x =
     (case x of
        None \<Rightarrow> Inl ConversionError
      | Some i \<Rightarrow>
          if - 2147483648 \<le> i \<and> i < 2147483648 then Inr (bint_to_bytes i 4)
          else Inl ConversionError)"

definition pack_bytes :: "bytes \<Rightarrow> error + bytes" where
  "pack_bytes s =
     (let n = length s
      in if n < 4294967296
         then Inr (bint_to_bytes (int n) 4 @ s @ replicate (((n + 3) div 4) * 4 - n) 0)
         else Inl ConversionError)"

text \<open>
  The buffer of a packer after a sequence of pack calls (and of byte strings appended to
  \<open>get_buffer()\<close>): the first call that raises ends the sequence.
\<close>

fun packer :: "(error + bytes) list \<Rightarrow> error + bytes" where
  "packer [] = Inr []"
| "packer (x # xs) =
     (case x of
        Inl e \<Rightarrow> Inl e
      | Inr b \<Rightarrow> (case packer xs of Inl e \<Rightarrow> Inl e | Inr r \<Rightarrow> Inr (b @ r)))"

text \<open>The packets handed to \<open>self.sock.send\<close>, oldest first.\<close>

type_synonym tx = "bytes list"

definition sock_send :: "error + bytes \<Rightarrow> tx \<Rightarrow> (error + unit) \<times> tx" where
  "sock_send p t = (case p of Inl e \<Rightarrow> (Inl e, t) | Inr b \<Rightarrow> (Inr (), t @ [b]))"

record session =
  db_handle :: "int option"

definition op_drop_database_call :: "session \<Rightarrow> tx \<Rightarrow> (error + unit) \<times> tx" where
  "op_drop_database_call self t =
     (if db_handle self = None then (Inl OperationalError, t)
      else sock_send (packer [pack_int (Some op_drop_database), pack_int (db_handle self)]) t)"

definition op_service_info_call ::
  "session \<Rightarrow> bytes \<Rightarrow> bytes \<Rightarrow> int \<Rightarrow> tx \<Rightarrow> (error + unit) \<times> tx" where
  "op_service_info_call self param item buffer_len t =
     (if db_handle self = None then (Inl OperationalError, t)
      else sock_send (packer [pack_int (Some op_service_info), pack_int (db_handle self),
             pack_int (Some 0), pack_bytes param, pack_bytes item, pack_int (Some buffer_len)]) t)"

definition op_service_start_call :: "session \<Rightarrow> bytes \<Rightarrow> tx \<Rightarrow> (error + unit) \<times> tx" where
  "op_service_start_call self param t =
     (if db_handle self = None then (Inl OperationalError, t)
      else sock_send (packer [pack_int (Some op_service_start), pack_int (db_handle self),
             pack_int (Some 0), pack_bytes param]) t)"

definition op_service_detach_call :: "session \<Rightarrow> tx \<Rightarrow> (error + unit) \<times> tx" where
  "op_service_detach_call self t =
     (if db_handle self = None then (Inl OperationalError, t)
      else sock_send (packer [pack_int (Some op_service_detach), pack_int (db_handle self)]) t)"

definition op_info_database_call :: "session \<Rightarrow> bytes \<Rightarrow> tx \<Rightarrow> (error + unit) \<times> tx" where
  "op_info_database_call self b t =
     (if db_handle self = None then (Inl OperationalError, t)
      else sock_send (packer [pack_int (Some op_info_database), pack_int (db_handle self),
             pack_int (Some 0), pack_bytes b, pack_int (Some buffer_length)]) t)"

definition op_transaction_call :: "session \<Rightarrow> bytes \<Rightarrow> tx \<Rightarrow> (error + unit) \<times> tx" where
  "op_transaction_call self tpb t =
     (if db_handle self = None then (Inl OperationalError, t)
      else sock_send (packer [pack_int (Some op_transaction), pack_int (db_handle self),
             pack_bytes tpb]) t)"

definition op_commit_call :: "int option \<Rightarrow> tx \<Rightarrow> (error + unit) \<times> tx" where
  "op_commit_call trans_handle t =
     sock_send (packer [pack_int (Some op_commit), pack_int trans_handle]) t"

definition op_commit_retaining_call :: "int option \<Rightarrow> tx \<Rightarrow> (error + unit) \<times> tx" where
  "op_commit_retaining_call trans_handle t =
     sock_send (packer [pack_int (Some op_commit_retaining), pack_int trans_handle]) t"

definition op_rollback_call :: "int option \<Rightarrow> tx \<Rightarrow> (error + unit) \<times> tx" where
  "op_rollback_call trans_handle t =
     sock_send (packer [pack_int (Some op_rollback), pack_int trans_handle]) t"

definition op_rollback_retaining_call :: "int option \<Rightarrow> tx \<Rightarrow> (error + unit) \<times> tx" where
  "op_rollback_retaining_call trans_handle t =
     sock_send (packer [pack_int (Some op_rollback_retaining), pack_int trans_handle]) t"

definition op_allocate_statement_call :: "session \<Rightarrow> tx \<Rightarrow> (error + unit) \<times> tx" where
  "op_allocate_statement_call self t =
     (if db_handle self = None then (Inl OperationalError, t)
      else sock_send (packer [pack_int (Some op_allocate_statement), pack_int (db_handle self)]) t)"

definition op_exec_immediate_call ::
  "env \<Rightarrow> session \<Rightarrow> int option \<Rightarrow> string \<Rightarrow> tx \<Rightarrow> (error + unit) \<times> tx" where
  "op_exec_immediate_call env self trans_handle query t =
     (if db_handle self = None then (Inl OperationalError, t)
      else sock_send (packer [pack_int (Some op_exec_immediate), pack_int trans_handle,
             pack_int (db_handle self), pack_int (Some 3),
             (case str_to_bytes env query of Inl e \<Rightarrow> Inl e | Inr q \<Rightarrow> pack_bytes q),
             pack_bytes [], pack_int (Some buffer_length)]) t)"

definition op_detach_call :: "session \<Rightarrow> tx \<Rightarrow> (error + unit) \<times> tx" where
  "op_detach_call self t =
     (if db_handle self = None then (Inl OperationalError, t)
      else sock_send (packer [pack_int (Some op_detach), pack_int (db_handle self)]) t)"

definition op_create_blob2_call :: "int option \<Rightarrow> tx \<Rightarrow> (error + unit) \<times> tx" where
  "op_create_blob2_call trans_handle t =
     sock_send (packer [pack_int (Some op_create_blob2), pack_int (Some 0), pack_int trans_handle,
       pack_int (Some 0), pack_int (Some 0)]) t"

definition op_put_segment_call :: "int option \<Rightarrow> bytes \<Rightarrow> tx \<Rightarrow> (error + unit) \<times> tx" where
  "op_put_segment_call blob_handle b t =
     sock_send (packer [pack_int (Some op_put_segment), pack_int blob_handle,
       pack_int (Some (int (length b))), pack_int (Some (int (length b))), Inr b]) t"

definition op_close_blob_call :: "int option \<Rightarrow> tx \<Rightarrow> (error + unit) \<times> tx" where
  "op_close_blob_call blob_handle t =
     sock_send (packer [pack_int (Some op_close_blob), pack_int blob_handle]) t"

text \<open>
  The event names of \<open>_op_que_events\<close> are a dictionary; its items are visited in order.
\<close>

fun event_params :: "env \<Rightarrow> (string \<times> int) list \<Rightarrow> error + bytes" where
  "event_params env [] = Inr []"
| "event_params env ((name, n) # es) =
     (case bs [int (length name)] of
        Inl e \<Rightarrow> Inl e
      | Inr l \<Rightarrow>
          (case str_to_bytes env name of
             Inl e \<Rightarrow> Inl e
           | Inr nb \<Rightarrow>
               (case int_to_bytes env n 4 of
                  Inl e \<Rightarrow> Inl e
                | Inr cb \<Rightarrow>
                    (case event_params env es of
                       Inl e \<Rightarrow> Inl e
                     | Inr r \<Rightarrow> Inr (l @ nb @ cb @ r)))))"

definition op_que_events_call ::
  "env \<Rightarrow> session \<Rightarrow> (string \<times> int) list \<Rightarrow> int \<Rightarrow> int \<Rightarrow> int \<Rightarrow> tx \<Rightarrow> (error + unit) \<times> tx" where
  "op_que_events_call env self event_names ast args event_id t =
     (if db_handle self = None then (Inl OperationalError, t)
      else (case event_params env event_names of
              Inl e \<Rightarrow> (Inl e, t)
            | Inr ps \<Rightarrow>
                sock_send (packer [pack_int (Some op_que_events), pack_int (db_handle self),
                  pack_bytes (1 # ps), pack_int (Some ast), pack_int (Some args),
                  pack_int (Some event_id)]) t))"

definition op_cancel_events_call :: "session \<Rightarrow> int \<Rightarrow> tx \<Rightarrow> (error + unit) \<times> tx" where
  "op_cancel_events_call self event_id t =
     (if db_handle self = None then (Inl OperationalError, t)
      else sock_send (packer [pack_int (Some op_cancel_events), pack_int (db_handle self),
             pack_int (Some event_id)]) t)"

text \<open>\<open>'.'.join(...)\<close>\<close>

fun str_join :: "string \<Rightarrow> string list \<Rightarrow> string" where
  "str_join sep [] = []"
| "str_join sep [x] = x"
| "str_join sep (x # y # ys) = x @ sep @ str_join sep (y # ys)"

text \<open>
  \<open>_op_connect_request\<close>: the request, then the reply with the address of the auxiliary
  connection. \<open>ln\<close> is computed by the source and may be negative.
\<close>

definition connect_request_reply ::
  "env \<Rightarrow> rx \<Rightarrow> (error + int \<times> int \<times> int \<times> string) \<times> rx" where
  "connect_request_reply env s =
     (case recv_channel 4 False s of
        (Inl e, s1) \<Rightarrow> (Inl e, s1)
      | (Inr b, s1) \<Rightarrow>
     (case skip_dummy b s1 of
        (Inl e, s2) \<Rightarrow> (Inl e, s2)
      | (Inr b, s2) \<Rightarrow>
     if bytes_to_bint b \<noteq> op_response then (Inl InternalError, s2) else
     (case recv_channel 4 False s2 of
        (Inl e, s3) \<Rightarrow> (Inl e, s3)
      | (Inr hb, s3) \<Rightarrow>
     (case recv_channel 8 False s3 of
        (Inl e, s4) \<Rightarrow> (Inl e, s4)
      | (Inr garbage, s4) \<Rightarrow>
     (case recv_channel 4 False s4 of
        (Inl e, s5) \<Rightarrow> (Inl e, s5)
      | (Inr lb, s5) \<Rightarrow>
     let ln = bytes_to_bint lb; ln = ln + ln mod 4 in
     (case recv_channel 2 False s5 of
        (Inl e, s6) \<Rightarrow> (Inl e, s6)
      | (Inr fb, s6) \<Rightarrow>
     (case recv_channel 2 False s6 of
        (Inl e, s7) \<Rightarrow> (Inl e, s7)
      | (Inr pb, s7) \<Rightarrow>
     (case recv_channel 4 False s7 of
        (Inl e, s8) \<Rightarrow> (Inl e, s8)
      | (Inr ab, s8) \<Rightarrow>
     (case recv_channel (ln - 8) False s8 of
        (Inl e, s9) \<Rightarrow> (Inl e, s9)
      | (Inr rest, s9) \<Rightarrow>
     (case parse_status_vector env s9 of
        (Inl e, s10) \<Rightarrow> (Inl e, s10)
      | (Inr (gds, sql, msg), s10) \<Rightarrow>
          if sql \<noteq> 0 \<or> msg \<noteq> [] then (Inl OperationalError, s10)
          else (Inr (bytes_to_bint hb, bytes_to_uint pb, bytes_to_bint fb,
                     str_join ''.'' (map (\<lambda>c. str_int (uint c)) ab)), s10)))))))))))"

definition op_connect_request_call ::
  "env \<Rightarrow> session \<Rightarrow> rx \<times> tx \<Rightarrow> (error + int \<times> int \<times> int \<times> string) \<times> (rx \<times> tx)" where
  "op_connect_request_call env self st =
     (if db_handle self = None then (Inl OperationalError, st)
      else (case sock_send (packer [pack_int (Some op_connect_request), pack_int (Some 1),
                    pack_int (db_handle self), pack_int (Some 0)]) (snd st) of
              (Inl e, t1) \<Rightarrow> (Inl e, (fst st, t1))
            | (Inr u, t1) \<Rightarrow>
                (case connect_request_reply env (fst st) of
                   (r, s1) \<Rightarrow> (r, (s1, t1)))))"

section \<open>The BLOB spill and the BLR encoder\<close>

text \<open>The \<open>while i < len(b)\<close> loop of \<open>_create_blob\<close>.\<close>

function put_segments ::
  "env \<Rightarrow> int \<Rightarrow> bytes \<Rightarrow> nat \<Rightarrow> rx \<times> tx \<Rightarrow> (error + unit) \<times> (rx \<times> tx)" where
  "put_segments env blob_handle b i st =
     (if i < length b
      then (case op_put_segment_call (Some blob_handle)
                   (take (BLOB_SEGMENT_SIZE env) (drop i b)) (snd st) of
              (Inl e, t1) \<Rightarrow> (Inl e, (fst st, t1))
            | (Inr u, t1) \<Rightarrow>
                (case op_response_call env (fst st) of
                   (Inl e, s1) \<Rightarrow> (Inl e, (s1, t1))
                 | (Inr x, s1) \<Rightarrow>
                     put_segments env blob_handle b (i + BLOB_SEGMENT_SIZE env) (s1, t1)))
      else (Inr (), st))"
  by pat_completeness auto
termination
proof (relation "measure (\<lambda>(env, blob_handle, b, i, st). rxsize (fst st))", goal_cases)
  case 1
  show ?case by simp
next
  case (2 env blob_handle b i st x t1 u xa s1 y)
  then have "op_response_call env (fst st) = (Inr y, s1)" by simp
  then have "rxsize s1 < rxsize (fst st)" by (rule op_response_call_less)
  then show ?case by simp
qed

declare put_segments.simps [simp del]

definition create_blob ::
  "env \<Rightarrow> int option \<Rightarrow> bytes \<Rightarrow> rx \<times> tx \<Rightarrow> (error + bytes) \<times> (rx \<times> tx)" where
  "create_blob env trans_handle b st =
     (case op_create_blob2_call trans_handle (snd st) of
        (Inl e, t1) \<Rightarrow> (Inl e, (fst st, t1))
      | (Inr u, t1) \<Rightarrow>
     (case op_response_call env (fst st) of
        (Inl e, s1) \<Rightarrow> (Inl e, (s1, t1))
      | (Inr (blob_handle, blob_id, buf), s1) \<Rightarrow>
     (case put_segments env blob_handle b 0 (s1, t1) of
        (Inl e, st2) \<Rightarrow> (Inl e, st2)
      | (Inr u, (s2, t2)) \<Rightarrow>
     (case op_close_blob_call (Some blob_handle) t2 of
        (Inl e, t3) \<Rightarrow> (Inl e, (s2, t3))
      | (Inr u, t3) \<Rightarrow>
     (case op_response_call env s2 of
        (Inl e, s3) \<Rightarrow> (Inl e, (s3, t3))
      | (Inr x, s3) \<Rightarrow> (Inr blob_id, (s3, t3)))))))"

text \<open>
  The parameter values. A \<open>float\<close> other than \<open>float("inf")\<close> is turned into a
  \<open>Decimal\<close> by the source; the model holds the triple \<open>as_tuple()\<close> gives for it. The
  exponent of that triple is an integer, or a letter for NaN and the infinities.
\<close>

datatype dec_exponent = Exp int | ExpLetter char

record dec_tuple =
  sign :: int
  digits :: "int list"
  exponent :: dec_exponent

datatype param =
    PText string
  | PBytes bytes
  | PInt int
  | PFloatInf
  | PFloat dec_tuple
  | PDecimal dec_tuple
  | PDate date
  | PTime time
  | PDateTime "date \<times> time"
  | PBool bool
  | PNone
  | POther string

text \<open>The byte-string branch (lines 251 to 259), for the encoded bytes \<open>p\<close>.\<close>

definition encode_bytes ::
  "env \<Rightarrow> int option \<Rightarrow> bytes \<Rightarrow> rx \<times> tx \<Rightarrow> (error + bytes \<times> bytes) \<times> (rx \<times> tx)" where
  "encode_bytes env trans_handle p st =
     (if length p > MAX_CHAR_LENGTH env
      then (case create_blob env trans_handle p st of
              (Inl e, st1) \<Rightarrow> (Inl e, st1)
            | (Inr v, st1) \<Rightarrow> (Inr ([9, 0], v), st1))
      else (let v = p;
                nbytes = int (length v);
                pad_length = (4 - nbytes) mod 4;
                v = v @ replicate (nat pad_length) 0
            in case bs [14, nbytes mod 256, nbytes div 256] of
                 Inl e \<Rightarrow> (Inl e, st)
               | Inr tag \<Rightarrow> (Inr (tag, v), st)))"

text \<open>The fallback branch (lines 292 to 304), for the bytes \<open>v\<close> of the string form.\<close>

definition encode_fallback :: "bytes \<Rightarrow> error + bytes \<times> bytes" where
  "encode_fallback v =
     (let nbytes = int (length v);
          pad_length = (4 - nbytes) mod 4;
          v = v @ replicate (nat pad_length) 0
      in case bs [14, nbytes mod 256, nbytes div 256] of
           Inl e \<Rightarrow> Inl e
         | Inr tag \<Rightarrow> Inr (tag, v))"

text \<open>The decimal branch (lines 266 to 279).\<close>

definition encode_decimal :: "dec_tuple \<Rightarrow> error + bytes \<times> bytes" where
  "encode_decimal p =
     (let ln = length (digits p);
          v = sum_list (map (\<lambda>i. digits p ! i * 10 ^ (ln - i - 1)) [0..<ln]);
          v = (if sign p \<noteq> 0 then v * (- 1) else v);
          v = bint_to_bytes v 8
      in case exponent p of
           ExpLetter c \<Rightarrow> Inl TypeError
         | Exp e \<Rightarrow>
             (case bs [16, if e < 0 then e + 256 else e] of
                Inl err \<Rightarrow> Inl err
              | Inr tag \<Rightarrow> Inr (tag, v)))"

text \<open>
  The body of the \<open>for p in params\<close> loop up to \<open>values += v\<close>: what it appends to
  \<open>blr\<close>, and \<open>v\<close>.
\<close>

fun encode_param ::
  "env \<Rightarrow> int option \<Rightarrow> param \<Rightarrow> rx \<times> tx \<Rightarrow> (error + bytes \<times> bytes) \<times> (rx \<times> tx)" where
  "encode_param env th (PText t) st =
     (case str_to_bytes env t of
        Inl e \<Rightarrow> (Inl e, st)
      | Inr p \<Rightarrow> encode_bytes env th p st)"
| "encode_param env th (PBytes b) st = encode_bytes env th b st"
| "encode_param env th (PInt i) st = (Inr ([8, 0], bint_to_bytes i 4), st)"
| "encode_param env th PFloatInf st = (Inr ([10], [127, 128, 0, 0]), st)"
| "encode_param env th (PFloat d) st = (encode_decimal d, st)"
| "encode_param env th (PDecimal d) st = (encode_decimal d, st)"
| "encode_param env th (PDate d) st = (Inr ([12], convert_date d), st)"
| "encode_param env th (PTime t) st = (Inr ([13], convert_time t), st)"
| "encode_param env th (PDateTime dt) st = (Inr ([35], convert_timestamp dt), st)"
| "encode_param env th (PBool b) st = (Inr ([23], if b then [1, 0, 0, 0] else [0, 0, 0, 0]), st)"
| "encode_param env th PNone st = (encode_fallback [], st)"
| "encode_param env th (POther r) st =
     (case str_to_bytes env r of
        Inl e \<Rightarrow> (Inl e, st)
      | Inr v \<Rightarrow> (encode_fallback v, st))"

fun blr_loop ::
  "env \<Rightarrow> int option \<Rightarrow> param list \<Rightarrow> bytes \<Rightarrow> bytes \<Rightarrow> rx \<times> tx
     \<Rightarrow> (error + bytes \<times> bytes) \<times> (rx \<times> tx)" where
  "blr_loop env th [] blr values st = (Inr (blr, values), st)"
| "blr_loop env th (p # ps) blr values st =
     (case encode_param env th p st of
        (Inl e, st1) \<Rightarrow> (Inl e, st1)
      | (Inr (tag, v), st1) \<Rightarrow>
          blr_loop env th ps (blr @ tag @ [7, 0])
            (values @ v @ (if p \<noteq> PNone then [0, 0, 0, 0] else [255, 255, 255, 255])) st1)"

definition params_to_blr ::
  "env \<Rightarrow> int option \<Rightarrow> param list \<Rightarrow> rx \<times> tx \<Rightarrow> (error + bytes \<times> bytes) \<times> (rx \<times> tx)" where
  "params_to_blr env trans_handle params st =
     (let ln = int (length params) * 2
      in case bs [5, 2, 4, 0, ln mod 256, ln div 256] of
           Inl e \<Rightarrow> (Inl e, st)
         | Inr blr \<Rightarrow>
             (case blr_loop env trans_handle params blr [] st of
                (Inl e, st1) \<Rightarrow> (Inl e, st1)
              | (Inr (blr, values), st1) \<Rightarrow> (Inr (blr @ [255, 76], values), st1)))"

text \<open>\<open>_op_execute\<close>\<close>

definition op_execute_call ::
  "env \<Rightarrow> int option \<Rightarrow> int option \<Rightarrow> param list \<Rightarrow> rx \<times> tx \<Rightarrow> (error + unit) \<times> (rx \<times> tx)" where
  "op_execute_call env stmt_handle trans_handle params st =
     (if length params = 0
      then (case sock_send (packer [pack_int (Some op_execute), pack_int stmt_handle,
                    pack_int trans_handle, pack_bytes [], pack_int (Some 0), pack_int (Some 0)])
                   (snd st) of
              (r, t1) \<Rightarrow> (r, (fst st, t1)))
      else (case packer [pack_int (Some op_execute), pack_int stmt_handle, pack_int trans_handle] of
              Inl e \<Rightarrow> (Inl e, st)
            | Inr hd3 \<Rightarrow>
                (case params_to_blr env trans_handle params st of
                   (Inl e, st1) \<Rightarrow> (Inl e, st1)
                 | (Inr (blr, values), (s1, t1)) \<Rightarrow>
                     (case sock_send (packer [Inr hd3, pack_bytes blr, pack_int (Some 0),
                                   pack_int (Some 1), Inr values]) t1 of
                        (r, t2) \<Rightarrow> (r, (s1, t2))))))"

section \<open>Running the model on a concrete stream\<close>

text \<open>
  An environment to run the model in: the values the Firebird headers give the status
  vector tags, sample sizes, an empty message catalogue and one byte per character.
\<close>

definition fb_env :: env where
  "fb_env = \<lparr>MAX_CHAR_LENGTH = 32767, BLOB_SEGMENT_SIZE = 32000,
     isc_arg_end = 0, isc_arg_gds = 1, isc_arg_number = 4, isc_arg_string = 2,
     isc_arg_interpreted = 5, isc_arg_sql_state = 19,
     messages = (\<lambda>g. None),
     py_str = map (\<lambda>b. char_of (unat b)),
     str_to_bytes = (\<lambda>s. Inr (map (\<lambda>c. of_char c) s)),
     int_to_bytes = (\<lambda>v n. Inr (rev (bint_to_bytes v n)))\<rparr>"

lemma recv_channel_chunk:
  assumes "0 < n" and "nat (padded n al) \<le> length c"
  shows "recv_channel n al \<lparr>inbox = Chunk c # es, has_timeout = tm\<rparr>
       = (Inr (take (nat n) c),
          \<lparr>inbox = (if length c \<le> nat (padded n al) then es
                     else Chunk (drop (nat (padded n al)) c) # es),
             has_timeout = tm\<rparr>)"
proof -
  have m: "0 < padded n al" "n \<le> padded n al"
    using padded_nonneg [of n al] assms(1) by auto
  have c: "c \<noteq> []" using assms m by auto
  have l: "recv_loop tm (padded n al) [] (Chunk c # es)
         = (Inr (take (nat (padded n al)) c),
            if length c \<le> nat (padded n al) then es
            else Chunk (drop (nat (padded n al)) c) # es)"
    using m c assms(2)
    by (subst recv_loop.simps, subst recv_loop.simps) (auto simp: min_def)
  show ?thesis
    using l m assms
    by (simp add: recv_channel_def padded_def [symmetric] Let_def py_prefix_def min_def)
qed

lemma recv_channel_closed:
  assumes "0 < n"
  shows "recv_channel n al \<lparr>inbox = [], has_timeout = tm\<rparr>
       = (Inl OperationalError, \<lparr>inbox = [], has_timeout = tm\<rparr>)"
proof -
  have m: "0 < padded n al" using padded_nonneg [of n al] assms by auto
  have l: "recv_loop tm (padded n al) [] [] = (Inr [], [])"
    using m by (subst recv_loop.simps) auto
  show ?thesis
    using l assms by (simp add: recv_channel_def padded_def [symmetric] Let_def)
qed

lemma recv_channel_zero: "recv_channel 0 al s = (Inr [], s)"
  by (simp add: recv_channel_def recv_loop.simps py_prefix_def)

lemma bytes_to_bint_4:
  "bytes_to_bint [a, b, c, d] =
     (let u = ((uint a * 256 + uint b) * 256 + uint c) * 256 + uint d
      in if 2147483648 \<le> u then u - 4294967296 else u)"
  by (simp add: bytes_to_bint_def bytes_to_uint_def Let_def)

section \<open>Claims about single operations\<close>

text \<open>
  Claim C5 says that the parser returns its triple for every status vector that ends with
  \<open>isc_arg_end\<close>, with \<open>sql_code\<close> 0 when no number item follows the gds code 335544436.
  On the vector \<open>isc_arg_number, 5, isc_arg_end\<close> the source reads \<open>gds_code\<close>, which no
  statement has assigned yet, and ends with a \<open>NameError\<close> in place of the triple.
\<close>

theorem parse_status_vector_number_first:
  "fst (parse_status_vector fb_env
         \<lparr>inbox = [Chunk [0, 0, 0, 4, 0, 0, 0, 5, 0, 0, 0, 0]], has_timeout = False\<rparr>)
     = Inl NameError"
  by (simp add: parse_status_vector_def sv_loop.simps sv_item_def recv_channel_chunk padded_def
        bytes_to_bint_4 fb_env_def)

text \<open>
  Claim C6 says that every packet sent has a length that is a multiple of 4, the
  \<open>put_segment\<close> packet whatever the segment's length. \<open>_op_put_segment\<close> appends the
  segment as it is: for a segment of one byte the packet has 17 bytes.
\<close>

theorem put_segment_packet_unaligned:
  "op_put_segment_call (Some 1) [97] []
     = (Inr (), [[0, 0, 0, 37, 0, 0, 0, 1, 0, 0, 0, 1, 0, 0, 0, 1, 97]])
   \<and> length [0, 0, 0, 37, 0, 0, 0, 1, 0, 0, 0, 1, 0, 0, 0, 1, 97 :: byte] mod 4 = 1"
  by (simp add: op_put_segment_call_def sock_send_def pack_int_def op_put_segment_def
        bint_to_bytes_4)

text \<open>
  Claim C7 says that every response reader, after the dummies, takes \<open>op_response\<close> and
  parses it as a response with a status vector. On the same reply (opcode 9, handle 1,
  an object id, an empty buffer, an empty status vector) \<open>_op_fetch_response\<close> does so
  and \<open>_op_sql_response\<close> ends with an internal error.
\<close>

theorem sql_response_refuses_op_response:
  "fst (op_sql_response_call xsqlda
         \<lparr>inbox = [Chunk [0, 0, 0, 9, 0, 0, 0, 1, 0, 0, 0, 0, 0, 0, 0, 2, 0, 0, 0, 0, 0, 0, 0, 0]],
          has_timeout = False\<rparr>)
     = Inl InternalError
   \<and> fst (op_fetch_response_call fb_env stmt_handle xsqlda
         \<lparr>inbox = [Chunk [0, 0, 0, 9, 0, 0, 0, 1, 0, 0, 0, 0, 0, 0, 0, 2, 0, 0, 0, 0, 0, 0, 0, 0]],
          has_timeout = False\<rparr>)
     = Inr (Response (1, [0, 0, 0, 0, 0, 0, 0, 2], []))"
  by (simp add: op_sql_response_call_def op_fetch_response_call_def recv_channel_chunk
        recv_channel_zero padded_def skip_dummy.simps bytes_to_bint_4 op_dummy_def
        op_sql_response_def op_response_def parse_op_response_def parse_status_vector_def
        sv_loop.simps fb_env_def)

text \<open>
  Claim C9, as amended. Every operation that needs \<open>db_handle\<close> ends with an operational
  error, and sends nothing, when \<open>db_handle\<close> is \<open>None\<close>. The operations that take a
  transaction handle do not look at it: with \<open>None\<close> they send nothing either, but the
  error is the packer's conversion error.
\<close>

theorem handle_checks:
  "op_detach_call \<lparr>db_handle = None\<rparr> t = (Inl OperationalError, t)
   \<and> op_drop_database_call \<lparr>db_handle = None\<rparr> t = (Inl OperationalError, t)
   \<and> op_transaction_call \<lparr>db_handle = None\<rparr> tpb t = (Inl OperationalError, t)
   \<and> op_allocate_statement_call \<lparr>db_handle = None\<rparr> t = (Inl OperationalError, t)
   \<and> op_info_database_call \<lparr>db_handle = None\<rparr> b t = (Inl OperationalError, t)
   \<and> op_exec_immediate_call env \<lparr>db_handle = None\<rparr> th query t = (Inl OperationalError, t)
   \<and> op_que_events_call env \<lparr>db_handle = None\<rparr> names ast args event_id t
       = (Inl OperationalError, t)
   \<and> op_cancel_events_call \<lparr>db_handle = None\<rparr> event_id t = (Inl OperationalError, t)
   \<and> op_connect_request_call env \<lparr>db_handle = None\<rparr> st = (Inl OperationalError, st)
   \<and> op_service_info_call \<lparr>db_handle = None\<rparr> param item n t = (Inl OperationalError, t)
   \<and> op_service_start_call \<lparr>db_handle = None\<rparr> param t = (Inl OperationalError, t)
   \<and> op_service_detach_call \<lparr>db_handle = None\<rparr> t = (Inl OperationalError, t)
   \<and> op_commit_call None t = (Inl ConversionError, t)
   \<and> op_rollback_call None t = (Inl ConversionError, t)
   \<and> op_commit_retaining_call None t = (Inl ConversionError, t)
   \<and> op_rollback_retaining_call None t = (Inl ConversionError, t)"
  by (simp add: op_detach_call_def op_drop_database_call_def op_transaction_call_def
        op_allocate_statement_call_def op_info_database_call_def op_exec_immediate_call_def
        op_que_events_call_def op_cancel_events_call_def op_connect_request_call_def
        op_service_info_call_def op_service_start_call_def op_service_detach_call_def
        op_commit_call_def op_rollback_call_def op_commit_retaining_call_def
        op_rollback_retaining_call_def sock_send_def pack_int_def)

theorem commit_without_handle_counterexample:
  "op_commit_call None [] = (Inl ConversionError, [])
   \<and> fst (op_commit_call None []) \<noteq> Inl OperationalError"
  by (simp add: op_commit_call_def sock_send_def pack_int_def)

section \<open>The BLR encoder against the spec's table\<close>

text \<open>The spec's encoding table (4.3), written from its words.\<close>

definition prelude :: "nat \<Rightarrow> bytes" where
  "prelude n = map word_of_int [5, 2, 4, 0, (2 * int n) mod 256, (2 * int n) div 256]"

definition null_indicator :: "param \<Rightarrow> bytes" where
  "null_indicator p = (if p = PNone then [255, 255, 255, 255] else [0, 0, 0, 0])"

definition zero_pad :: "bytes \<Rightarrow> bytes" where
  "zero_pad b = b @ replicate ((4 - length b mod 4) mod 4) 0"

definition length_tag :: "bytes \<Rightarrow> bytes" where
  "length_tag b = [14, word_of_int (int (length b) mod 256), word_of_int (int (length b) div 256)]"

text \<open>
  The bytes of a text in the connection's character set, and whether it has any: the
  table's rows for text are about the encoded text.
\<close>

definition encodable_text :: "env \<Rightarrow> string \<Rightarrow> bool" where
  "encodable_text env t = (case str_to_bytes env t of Inl e \<Rightarrow> False | Inr b \<Rightarrow> True)"

definition text_bytes :: "env \<Rightarrow> string \<Rightarrow> bytes" where
  "text_bytes env t = (case str_to_bytes env t of Inl e \<Rightarrow> [] | Inr b \<Rightarrow> b)"

text \<open>The number that the digits of a decimal spell, with its sign.\<close>

definition mantissa :: "dec_tuple \<Rightarrow> int" where
  "mantissa d = (let m = foldl (\<lambda>a x. a * 10 + x) 0 (digits d) in if sign d \<noteq> 0 then - m else m)"

definition exponent_byte :: "dec_tuple \<Rightarrow> int" where
  "exponent_byte d = (case exponent d of Exp e \<Rightarrow> (if e < 0 then e + 256 else e) | ExpLetter c \<Rightarrow> 0)"

fun blr_tag :: "env \<Rightarrow> param \<Rightarrow> bytes" where
  "blr_tag env (PText t) = length_tag (text_bytes env t)"
| "blr_tag env (PBytes b) = length_tag b"
| "blr_tag env (PInt i) = [8, 0]"
| "blr_tag env PFloatInf = [10]"
| "blr_tag env (PFloat d) = [16, word_of_int (exponent_byte d)]"
| "blr_tag env (PDecimal d) = [16, word_of_int (exponent_byte d)]"
| "blr_tag env (PDate d) = [12]"
| "blr_tag env (PTime t) = [13]"
| "blr_tag env (PDateTime dt) = [35]"
| "blr_tag env (PBool b) = [23]"
| "blr_tag env PNone = [14, 0, 0]"
| "blr_tag env (POther r) = length_tag (text_bytes env r)"

fun value_bytes :: "env \<Rightarrow> param \<Rightarrow> bytes" where
  "value_bytes env (PText t) = zero_pad (text_bytes env t)"
| "value_bytes env (PBytes b) = zero_pad b"
| "value_bytes env (PInt i) = bint_to_bytes i 4"
| "value_bytes env PFloatInf = [127, 128, 0, 0]"
| "value_bytes env (PFloat d) = bint_to_bytes (mantissa d) 8"
| "value_bytes env (PDecimal d) = bint_to_bytes (mantissa d) 8"
| "value_bytes env (PDate d) = convert_date d"
| "value_bytes env (PTime t) = convert_time t"
| "value_bytes env (PDateTime dt) = convert_date (fst dt) @ convert_time (snd dt)"
| "value_bytes env (PBool b) = (if b then [1, 0, 0, 0] else [0, 0, 0, 0])"
| "value_bytes env PNone = []"
| "value_bytes env (POther r) = zero_pad (text_bytes env r)"

text \<open>A text or byte-string value longer than \<open>MAX_CHAR_LENGTH\<close> is spilled into a BLOB.\<close>

fun spills :: "env \<Rightarrow> param \<Rightarrow> bool" where
  "spills env (PText t) =
     (encodable_text env t \<and> MAX_CHAR_LENGTH env < length (text_bytes env t))"
| "spills env (PBytes b) = (MAX_CHAR_LENGTH env < length b)"
| "spills env p = False"

text \<open>
  The values within the encoder's reach: a text that the character set encodes, a string
  whose length fits the two bytes of its tag, a decimal whose exponent is an integer that
  fits one byte.
\<close>

definition exponent_ok :: "dec_tuple \<Rightarrow> bool" where
  "exponent_ok d = (case exponent d of Exp e \<Rightarrow> - 256 \<le> e \<and> e < 256 | ExpLetter c \<Rightarrow> False)"

fun in_range :: "env \<Rightarrow> param \<Rightarrow> bool" where
  "in_range env (PText t) = (encodable_text env t \<and> length (text_bytes env t) < 65536)"
| "in_range env (PBytes b) = (length b < 65536)"
| "in_range env (PFloat d) = exponent_ok d"
| "in_range env (PDecimal d) = exponent_ok d"
| "in_range env (POther r) = (encodable_text env r \<and> length (text_bytes env r) < 65536)"
| "in_range env p = True"

text \<open>
  What one parameter contributes: the tag group \<open>[9, 0]\<close> and an 8-byte BLOB id when it is
  spilled; otherwise it is within reach and contributes the table's tag group and value
  bytes.
\<close>

definition encodes :: "env \<Rightarrow> param \<Rightarrow> bytes \<times> bytes \<Rightarrow> bool" where
  "encodes env p tv =
     (if spills env p then fst tv = [9, 0] \<and> length (snd tv) = 8
      else in_range env p \<and> fst tv = blr_tag env p \<and> snd tv = value_bytes env p)"

text \<open>The values that \<open>params_to_blr\<close> encodes without a BLOB and without raising.\<close>

definition plain :: "env \<Rightarrow> param \<Rightarrow> bool" where
  "plain env p = (\<not> spills env p \<and> in_range env p)"

lemma bs_Inr: "bs xs = Inr b \<Longrightarrow> b = map word_of_int xs \<and> list_all (\<lambda>x. 0 \<le> x \<and> x < 256) xs"
  by (simp add: bs_def split: if_splits)

lemma bs_ok: "list_all (\<lambda>x. 0 \<le> x \<and> x < 256) xs \<Longrightarrow> bs xs = Inr (map word_of_int xs)"
  by (simp add: bs_def)

lemma mod4_cases: "(n::nat) mod 4 = 0 \<or> n mod 4 = 1 \<or> n mod 4 = 2 \<or> n mod 4 = 3"
  by linarith

lemma neg_int_mod4: "- int n mod 4 = (4 - int (n mod 4)) mod 4"
proof -
  have "- int n mod 4 = (- (int n mod 4)) mod 4" by (simp add: mod_minus_eq)
  also have "\<dots> = (4 + - (int n mod 4)) mod 4" by (simp only: mod_add_self1)
  finally show ?thesis by (simp add: zmod_int)
qed

lemma pad_length_neg: "nat (- int n mod 4) = (4 - n mod 4) mod 4"
  using mod4_cases [of n] unfolding neg_int_mod4 by auto

lemma pad_length_eq: "nat ((4 - int n) mod 4) = (4 - n mod 4) mod 4"
  using pad_length_neg [of n] by simp

lemma digits_sum_horner:
  "sum_list (map (\<lambda>i. ds ! i * 10 ^ (length ds - i - 1)) [0..<length ds])
     = foldl (\<lambda>a x. a * 10 + x) (0::int) ds"
proof (induction ds rule: rev_induct)
  case Nil
  show ?case by simp
next
  case (snoc d ds)
  have "map (\<lambda>i. (ds @ [d]) ! i * 10 ^ (length (ds @ [d]) - i - 1)) [0..<length ds]
      = map (\<lambda>i. (ds ! i * 10 ^ (length ds - i - 1)) * 10) [0..<length ds]"
  proof (rule map_cong [OF refl])
    fix i assume "i \<in> set [0..<length ds]"
    then have i: "i < length ds" by simp
    then have "length (ds @ [d]) - i - 1 = Suc (length ds - i - 1)" by simp
    then show "(ds @ [d]) ! i * 10 ^ (length (ds @ [d]) - i - 1)
             = (ds ! i * 10 ^ (length ds - i - 1)) * 10"
      using i by (simp add: nth_append)
  qed
  then have "sum_list (map (\<lambda>i. (ds @ [d]) ! i * 10 ^ (length (ds @ [d]) - i - 1)) [0..<length ds])
      = sum_list (map (\<lambda>i. (ds ! i * 10 ^ (length ds - i - 1)) * 10) [0..<length ds])"
    by (rule arg_cong)
  also have "\<dots> = sum_list (map (\<lambda>i. ds ! i * 10 ^ (length ds - i - 1)) [0..<length ds]) * 10"
    by (rule sum_list_mult_const)
  finally have "sum_list (map (\<lambda>i. (ds @ [d]) ! i * 10 ^ (length (ds @ [d]) - i - 1))
                   [0..<length (ds @ [d])])
      = sum_list (map (\<lambda>i. ds ! i * 10 ^ (length ds - i - 1)) [0..<length ds]) * 10 + d"
    by simp
  then show ?case
    unfolding snoc.IH by simp
qed

lemma encode_decimal_Inr:
  "encode_decimal d = Inr (t, v) \<Longrightarrow>
     exponent_ok d \<and> t = [16, word_of_int (exponent_byte d)] \<and> v = bint_to_bytes (mantissa d) 8"
  unfolding encode_decimal_def Let_def digits_sum_horner
  by (auto simp: exponent_ok_def exponent_byte_def mantissa_def Let_def bs_def
           split: dec_exponent.splits sum.splits if_splits)

lemma encode_decimal_ok:
  "exponent_ok d \<Longrightarrow>
     encode_decimal d = Inr ([16, word_of_int (exponent_byte d)], bint_to_bytes (mantissa d) 8)"
  unfolding encode_decimal_def Let_def digits_sum_horner
  by (auto simp: exponent_ok_def exponent_byte_def mantissa_def Let_def bs_def
           split: dec_exponent.splits)

lemma length_byte_range:
  "int (length b) div 256 < 256 \<longleftrightarrow> length b < 65536"
  by auto

lemma encode_fallback_Inr:
  "encode_fallback b = Inr (t, v) \<Longrightarrow> length b < 65536 \<and> t = length_tag b \<and> v = zero_pad b"
  unfolding encode_fallback_def Let_def
  by (auto simp: bs_def length_tag_def zero_pad_def pad_length_eq pad_length_neg split: sum.splits if_splits)

lemma encode_fallback_ok:
  "length b < 65536 \<Longrightarrow> encode_fallback b = Inr (length_tag b, zero_pad b)"
  unfolding encode_fallback_def Let_def
  by (auto simp: bs_def length_tag_def zero_pad_def pad_length_eq pad_length_neg)

lemma encode_bytes_plain_Inr:
  "\<not> MAX_CHAR_LENGTH env < length b \<Longrightarrow> encode_bytes env th b st = (Inr (t, v), st') \<Longrightarrow>
     length b < 65536 \<and> t = length_tag b \<and> v = zero_pad b \<and> st' = st"
  unfolding encode_bytes_def Let_def
  by (auto simp: bs_def length_tag_def zero_pad_def pad_length_eq pad_length_neg split: sum.splits if_splits)

lemma encode_bytes_plain_ok:
  "length b \<le> MAX_CHAR_LENGTH env \<Longrightarrow> length b < 65536 \<Longrightarrow>
     encode_bytes env th b st = (Inr (length_tag b, zero_pad b), st)"
  unfolding encode_bytes_def Let_def
  by (auto simp: bs_def length_tag_def zero_pad_def pad_length_eq pad_length_neg)

lemma recv_channel_length:
  assumes "recv_channel n al s = (Inr b, s')" and "0 \<le> n"
  shows "length b = nat n"
proof -
  note p = recv_channel_pending [OF assms(2), of s al]
  have f: "fst (recv_channel n al s) = Inr b" using assms(1) by simp
  have "\<not> int (length (pending s)) < n" using p f by auto
  then have "n \<le> int (length (pending s))" by simp
  then have "b = take (nat n) (pending s)" "nat n \<le> length (pending s)"
    using p f by auto
  then show ?thesis by simp
qed

lemma uint_byte_lt: "uint (x :: byte) < 256"
  using uint_bounded [of x] by simp

lemma bytes_to_bint_range:
  assumes "length b = 4"
  shows "- 2147483648 \<le> bytes_to_bint b \<and> bytes_to_bint b < 2147483648"
proof -
  obtain x1 x2 x3 x4 where b: "b = [x1, x2, x3, x4]"
    using assms by (auto simp: length_Suc_conv numeral_eq_Suc)
  define u where "u = ((uint x1 * 256 + uint x2) * 256 + uint x3) * 256 + uint x4"
  define u2 where "u2 = uint x1 * 256 + uint x2"
  define u3 where "u3 = u2 * 256 + uint x3"
  have "u2 < 65536"
    unfolding u2_def using uint_byte_lt [of x1] uint_byte_lt [of x2] by linarith
  then have "u3 < 16777216"
    unfolding u3_def using uint_byte_lt [of x3] by linarith
  then have "u3 * 256 + uint x4 < 4294967296"
    using uint_byte_lt [of x4] by linarith
  then have "u < 4294967296"
    unfolding u_def u3_def u2_def .
  moreover have "0 \<le> u" unfolding u_def by simp
  moreover have "bytes_to_bint b = (if 2147483648 \<le> u then u - 4294967296 else u)"
    unfolding b bytes_to_bint_4 Let_def u_def by (rule refl)
  ultimately show ?thesis by auto
qed

lemma parse_op_response_Inr:
  assumes "parse_op_response env s = (Inr (h, oid, buf), s')"
  shows "length oid = 8 \<and> - 2147483648 \<le> h \<and> h < 2147483648"
proof -
  obtain b s1 where rc: "recv_channel 16 False s = (Inr b, s1)"
    using assms unfolding parse_op_response_def by (auto split: prod.splits sum.splits)
  have l: "length b = 16" using recv_channel_length [OF rc] by simp
  have "h = bytes_to_bint (take 4 b)" "oid = take 8 (drop 4 b)"
    using assms rc unfolding parse_op_response_def
    by (auto simp: Let_def split: prod.splits sum.splits if_splits)
  then show ?thesis
    using l bytes_to_bint_range [of "take 4 b"] by simp
qed

lemma op_response_call_Inr:
  assumes "op_response_call env s = (Inr (h, oid, buf), s')"
  shows "length oid = 8 \<and> - 2147483648 \<le> h \<and> h < 2147483648"
proof -
  obtain s2 where "parse_op_response env s2 = (Inr (h, oid, buf), s')"
    using assms unfolding op_response_call_def
    by (auto split: prod.splits sum.splits if_splits)
  then show ?thesis by (rule parse_op_response_Inr)
qed

lemma create_blob_length:
  assumes "create_blob env th b st = (Inr v, st')"
  shows "length v = 8"
proof -
  obtain h buf s1 where "op_response_call env (fst st) = (Inr (h, v, buf), s1)"
    using assms unfolding create_blob_def
    by (auto split: prod.splits sum.splits)
  then show ?thesis using op_response_call_Inr by blast
qed

lemma encode_bytes_encodes:
  assumes "encode_bytes env th b st = (Inr (t, v), st')"
  shows "if MAX_CHAR_LENGTH env < length b then t = [9, 0] \<and> length v = 8
         else length b < 65536 \<and> t = length_tag b \<and> v = zero_pad b"
proof (cases "MAX_CHAR_LENGTH env < length b")
  case True
  then obtain st1 where "create_blob env th b st = (Inr v, st1)" "t = [9, 0]"
    using assms unfolding encode_bytes_def by (auto split: prod.splits sum.splits)
  then show ?thesis using True create_blob_length by simp
next
  case False
  then show ?thesis using encode_bytes_plain_Inr [OF False assms] by simp
qed

lemma encode_param_encodes:
  assumes "encode_param env th p st = (Inr (t, v), st')"
  shows "encodes env p (t, v)"
proof (cases p)
  case (PText x)
  then obtain b where b: "str_to_bytes env x = Inr b"
      and e: "encode_bytes env th b st = (Inr (t, v), st')"
    using assms by (auto split: sum.splits)
  show ?thesis
    using encode_bytes_encodes [OF e] PText b
    by (simp add: encodes_def encodable_text_def text_bytes_def)
next
  case (PBytes x)
  then show ?thesis
    using encode_bytes_encodes [of env th x st t v st'] assms
    by (simp add: encodes_def)
next
  case (PFloat d)
  then show ?thesis
    using assms encode_decimal_Inr [of d t v] by (simp add: encodes_def)
next
  case (PDecimal d)
  then show ?thesis
    using assms encode_decimal_Inr [of d t v] by (simp add: encodes_def)
next
  case PNone
  then show ?thesis
    using assms encode_fallback_Inr [of "[]" t v]
    by (simp add: encodes_def length_tag_def zero_pad_def)
next
  case (POther r)
  then obtain b where b: "str_to_bytes env r = Inr b" and e: "encode_fallback b = Inr (t, v)"
    using assms by (auto split: sum.splits)
  show ?thesis
    using encode_fallback_Inr [OF e] POther b
    by (simp add: encodes_def encodable_text_def text_bytes_def)
qed (insert assms, auto simp: encodes_def convert_timestamp_def)

lemma encode_param_plain:
  assumes "plain env p"
  shows "encode_param env th p st = (Inr (blr_tag env p, value_bytes env p), st)"
proof (cases p)
  case (PText x)
  then obtain b where b: "str_to_bytes env x = Inr b"
    using assms by (auto simp: plain_def encodable_text_def split: sum.splits)
  then have "length b \<le> MAX_CHAR_LENGTH env" "length b < 65536"
    using assms PText by (auto simp: plain_def encodable_text_def text_bytes_def)
  then show ?thesis
    using PText b by (simp add: encode_bytes_plain_ok text_bytes_def)
next
  case (PBytes x)
  then have "length x \<le> MAX_CHAR_LENGTH env" "length x < 65536"
    using assms by (auto simp: plain_def)
  then show ?thesis using PBytes by (simp add: encode_bytes_plain_ok)
next
  case (PFloat d)
  then show ?thesis using assms by (simp add: encode_decimal_ok plain_def)
next
  case (PDecimal d)
  then show ?thesis using assms by (simp add: encode_decimal_ok plain_def)
next
  case PNone
  then show ?thesis
    using encode_fallback_ok [of "[]"] by (simp add: length_tag_def zero_pad_def)
next
  case (POther r)
  then obtain b where b: "str_to_bytes env r = Inr b"
    using assms by (auto simp: plain_def encodable_text_def split: sum.splits)
  then have "length b < 65536"
    using assms POther by (auto simp: plain_def text_bytes_def)
  then show ?thesis
    using POther b by (simp add: encode_fallback_ok text_bytes_def)
qed (simp_all add: convert_timestamp_def)

lemma blr_loop_layout:
  assumes "blr_loop env th ps blr vals st = (Inr (blr', vals'), st')"
  shows "\<exists>tvs. list_all2 (encodes env) ps tvs
          \<and> blr' = blr @ concat (map (\<lambda>(t, v). t @ [7, 0]) tvs)
          \<and> vals' = vals @ concat (map (\<lambda>(p, (t, v)). v @ null_indicator p) (zip ps tvs))"
  using assms
proof (induction ps arbitrary: blr vals st)
  case Nil
  then show ?case by simp
next
  case (Cons p ps)
  obtain t v st1 where e: "encode_param env th p st = (Inr (t, v), st1)"
    using Cons.prems by (auto split: prod.splits sum.splits)
  have r: "blr_loop env th ps (blr @ t @ [7, 0]) (vals @ v @ null_indicator p) st1
             = (Inr (blr', vals'), st')"
    using Cons.prems e by (cases "p = PNone") (simp_all add: null_indicator_def)
  obtain tvs where tvs: "list_all2 (encodes env) ps tvs"
      "blr' = (blr @ t @ [7, 0]) @ concat (map (\<lambda>(t, v). t @ [7, 0]) tvs)"
      "vals' = (vals @ v @ null_indicator p)
                   @ concat (map (\<lambda>(p, (t, v)). v @ null_indicator p) (zip ps tvs))"
    using Cons.IH [OF r] by blast
  have "list_all2 (encodes env) (p # ps) ((t, v) # tvs)"
    using tvs(1) encode_param_encodes [OF e] by simp
  moreover have "blr' = blr @ concat (map (\<lambda>(t, v). t @ [7, 0]) ((t, v) # tvs))"
    using tvs(2) by simp
  moreover have "vals' = vals
       @ concat (map (\<lambda>(p, (t, v)). v @ null_indicator p) (zip (p # ps) ((t, v) # tvs)))"
    using tvs(3) by simp
  ultimately show ?case by blast
qed

lemma blr_loop_plain:
  assumes "list_all (plain env) ps"
  shows "blr_loop env th ps blr vals st
       = (Inr (blr @ concat (map (\<lambda>p. blr_tag env p @ [7, 0]) ps),
               vals @ concat (map (\<lambda>p. value_bytes env p @ null_indicator p) ps)), st)"
  using assms
proof (induction ps arbitrary: blr vals)
  case Nil
  then show ?case by simp
next
  case (Cons p ps)
  then show ?case
    by (simp add: encode_param_plain null_indicator_def)
qed

lemma prelude_bs:
  "bs [5, 2, 4, 0, int n * 2 mod 256, int n * 2 div 256]
     = (if n < 32768 then Inr (prelude n) else Inl ValueError)"
proof -
  have "0 \<le> int n * 2 mod 256" "int n * 2 mod 256 < 256" by simp_all
  moreover have "0 \<le> int n * 2 div 256" by simp
  moreover have "int n * 2 div 256 < 256 \<longleftrightarrow> n < 32768" by auto
  ultimately show ?thesis
    by (simp add: bs_def prelude_def mult.commute)
qed

lemma params_to_blr_returns:
  assumes a: "params_to_blr env th ps st = (Inr (blr, vals), st')"
  shows "length ps < 32768
      \<and> (\<exists>tvs. list_all2 (encodes env) ps tvs
            \<and> blr = prelude (length ps) @ concat (map (\<lambda>(t, v). t @ [7, 0]) tvs) @ [255, 76]
            \<and> vals = concat (map (\<lambda>(p, (t, v)). v @ null_indicator p) (zip ps tvs)))"
proof -
  have n: "length ps < 32768"
    using a unfolding params_to_blr_def Let_def prelude_bs by (auto split: if_splits)
  obtain blr0 where l: "blr_loop env th ps (prelude (length ps)) [] st = (Inr (blr0, vals), st')"
      and b: "blr = blr0 @ [255, 76]"
    using a n unfolding params_to_blr_def Let_def prelude_bs
    by (auto split: prod.splits sum.splits)
  show ?thesis
    using blr_loop_layout [OF l] n b by auto
qed

text \<open>
  Claim C1, as amended. Whenever \<open>params_to_blr\<close> returns, for a list of \<open>n\<close> values,
  \<open>n\<close> is below 32768 and every value is spilled into a BLOB or within the encoder's
  reach; the descriptor is the prelude \<open>[5, 2, 4, 0, (2n) mod 256, (2n) div 256]\<close>, then
  for each parameter its tag group and \<open>[7, 0]\<close>, then \<open>[255, 76]\<close>, and the value buffer
  holds for each parameter its value bytes and then the 4-byte null indicator, all zero for
  a value and all ones for a null; the tag group and value bytes are the table's
  (\<open>[14, 0, 0]\<close> and no bytes for a null), or \<open>[9, 0]\<close> and an 8-byte BLOB id for a
  spilled value. So it raises for 32768 values or more and for a value that is neither
  spilled nor within reach. And it does return, with the session untouched, for every list
  of fewer than 32768 values that are within reach and not spilled.
\<close>

theorem params_to_blr_layout:
  "(params_to_blr env th ps st = (Inr (blr, values), st') \<longrightarrow>
      length ps < 32768
      \<and> (\<exists>tvs. list_all2 (encodes env) ps tvs
            \<and> blr = prelude (length ps) @ concat (map (\<lambda>(t, v). t @ [7, 0]) tvs) @ [255, 76]
            \<and> values = concat (map (\<lambda>(p, (t, v)). v @ null_indicator p) (zip ps tvs))))
   \<and> (length ps < 32768 \<and> list_all (plain env) ps \<longrightarrow>
        params_to_blr env th ps st
          = (Inr (prelude (length ps) @ concat (map (\<lambda>p. blr_tag env p @ [7, 0]) ps) @ [255, 76],
                  concat (map (\<lambda>p. value_bytes env p @ null_indicator p) ps)), st))
   \<and> (32768 \<le> length ps \<or> \<not> list_all (\<lambda>p. spills env p \<or> in_range env p) ps \<longrightarrow>
        (\<exists>e. fst (params_to_blr env th ps st) = Inl e))
   \<and> blr_tag env PNone = [14, 0, 0] \<and> value_bytes env PNone = []
   \<and> null_indicator PNone = [255, 255, 255, 255]
   \<and> (p \<noteq> PNone \<longrightarrow> null_indicator p = [0, 0, 0, 0])"
proof -
  have 1: "length ps < 32768
      \<and> (\<exists>tvs. list_all2 (encodes env) ps tvs
            \<and> blr = prelude (length ps) @ concat (map (\<lambda>(t, v). t @ [7, 0]) tvs) @ [255, 76]
            \<and> values = concat (map (\<lambda>(p, (t, v)). v @ null_indicator p) (zip ps tvs)))"
    if a: "params_to_blr env th ps st = (Inr (blr, values), st')"
    using params_to_blr_returns [OF a] .
  have 2: "params_to_blr env th ps st
          = (Inr (prelude (length ps) @ concat (map (\<lambda>p. blr_tag env p @ [7, 0]) ps) @ [255, 76],
                  concat (map (\<lambda>p. value_bytes env p @ null_indicator p) ps)), st)"
    if "length ps < 32768" "list_all (plain env) ps"
    using that unfolding params_to_blr_def Let_def prelude_bs
    by (simp add: blr_loop_plain)
  have 3: "\<exists>e. fst (params_to_blr env th ps st) = Inl e"
    if c: "32768 \<le> length ps \<or> \<not> list_all (\<lambda>p. spills env p \<or> in_range env p) ps"
  proof (cases "fst (params_to_blr env th ps st)")
    case (Inl e)
    then show ?thesis by blast
  next
    case (Inr r)
    obtain blr1 vals1 where r: "r = (blr1, vals1)" by (cases r)
    have "params_to_blr env th ps st = (Inr (blr1, vals1), snd (params_to_blr env th ps st))"
      using Inr r by (metis prod.collapse)
    then have "length ps < 32768 \<and> (\<exists>tvs. list_all2 (encodes env) ps tvs)"
      using params_to_blr_returns by blast
    then obtain tvs where n: "length ps < 32768" and l: "list_all2 (encodes env) ps tvs"
      by blast
    have "list_all (\<lambda>p. spills env p \<or> in_range env p) ps"
      using l by (induction rule: list_all2_induct) (auto simp: encodes_def split: if_splits)
    then show ?thesis using c n by simp
  qed
  show ?thesis
    using 1 2 3 by (simp add: null_indicator_def)
qed

theorem params_to_blr_layout_witness:
  "params_to_blr fb_env (Some 1)
      [PInt 42, PText ''hi'', PNone, PDate \<lparr>year = 2020, month = 1, day = 1\<rparr>]
      (\<lparr>inbox = [], has_timeout = False\<rparr>, [])
   = (Inr ([5, 2, 4, 0, 8, 0, 8, 0, 7, 0, 14, 2, 0, 7, 0, 14, 0, 0, 7, 0, 12, 7, 0, 255, 76],
           [0, 0, 0, 42, 0, 0, 0, 0, 104, 105, 0, 0, 0, 0, 0, 0, 255, 255, 255, 255,
            0, 0, 229, 225, 0, 0, 0, 0]),
      (\<lparr>inbox = [], has_timeout = False\<rparr>, []))"
proof -
  let ?ps = "[PInt 42, PText ''hi'', PNone, PDate \<lparr>year = 2020, month = 1, day = 1\<rparr>]"
  let ?st = "(\<lparr>inbox = [], has_timeout = False\<rparr>, []) :: rx \<times> tx"
  have h: "length ?ps < 32768 \<and> list_all (plain fb_env) ?ps"
    by (simp add: fb_env_def plain_def encodable_text_def text_bytes_def)
  have j: "julian_offset \<lparr>year = 2020, month = 1, day = 1\<rparr> = 58849"
    by (simp add: julian_offset_def)
  have r2: "replicate 2 (0 :: byte) = [0, 0]"
    by (simp add: numeral_2_eq_2)
  note t = params_to_blr_layout [of fb_env "Some 1" ?ps ?st, THEN conjunct2, THEN conjunct1,
      rule_format, OF h]
  show ?thesis
    unfolding t
    by (simp add: prelude_def length_tag_def zero_pad_def null_indicator_def fb_env_def
          text_bytes_def convert_date_julian j bint_to_bytes_4 r2)
qed

theorem params_to_blr_many_counterexample:
  "params_to_blr fb_env (Some 1) (replicate 32768 PNone) (\<lparr>inbox = [], has_timeout = False\<rparr>, [])
     = (Inl ValueError, (\<lparr>inbox = [], has_timeout = False\<rparr>, []))"
  by (simp add: params_to_blr_def bs_def)

section \<open>The BLOB spill\<close>


















section \<open>The unbound locals of the status vector parser\<close>

lemma recv_loop_error: "fst (recv_loop tmo n r es) = Inl e \<Longrightarrow> e = ValueError"
proof (induction tmo n r es rule: recv_loop.induct)
  case (1 tmo n r es)
  show ?case
    using "1.prems" "1.IH"
    by (subst (asm) recv_loop.simps) (auto split: if_splits prod.splits)
qed

lemma recv_loop_error_pair: "recv_loop tmo n r es = (Inl e, es') \<Longrightarrow> e = ValueError"
  using recv_loop_error [of tmo n r es e] by simp

lemma recv_channel_error:
  "recv_channel n al s = (Inl e, s') \<Longrightarrow> e = OperationalError \<or> e = ValueError"
  unfolding recv_channel_def Let_def
  by (auto split: prod.splits sum.splits if_splits dest: recv_loop_error_pair)

lemma sv_item_bound:
  assumes "gds_code v \<noteq> None" and "num_arg v \<noteq> None" and "sv_item env n v s = (r, s')"
  shows "r \<noteq> Inl NameError \<and> (\<forall>v'. r = Inr v' \<longrightarrow> gds_code v' \<noteq> None \<and> num_arg v' \<noteq> None)"
  using assms unfolding sv_item_def Let_def
  by (auto split: if_splits prod.splits sum.splits option.splits dest: recv_channel_error)

lemma sv_loop_bound:
  "gds_code v \<noteq> None \<Longrightarrow> num_arg v \<noteq> None \<Longrightarrow> fst (sv_loop env n v s) \<noteq> Inl NameError"
proof (induction env n v s rule: sv_loop.induct)
  case (1 env n v s)
  show ?case
  proof (cases "n = isc_arg_end env")
    case True
    then show ?thesis by (subst sv_loop.simps) simp
  next
    case ne: False
    obtain r1 s1 where it: "sv_item env n v s = (r1, s1)"
      by (cases "sv_item env n v s")
    note b = sv_item_bound [OF "1.prems" it]
    show ?thesis
    proof (cases r1)
      case (Inl e)
      then show ?thesis using b ne it by (simp add: sv_loop.simps [of env n v s])
    next
      case (Inr v1)
      obtain r2 s2 where rc: "recv_channel 4 False s1 = (r2, s2)"
        by (cases "recv_channel 4 False s1")
      show ?thesis
      proof (cases r2)
        case (Inl e)
        then show ?thesis
          using ne it Inr rc recv_channel_error [of 4 False s1 e s2]
          by (auto simp: sv_loop.simps [of env n v s])
      next
        case r2: (Inr c)
        have "fst (sv_loop env (bytes_to_bint c) v1 s2) \<noteq> Inl NameError"
          using b Inr by (intro "1.IH" [OF ne it [symmetric] Inr rc [symmetric] r2]) simp_all
        then show ?thesis
          using ne it Inr rc r2 by (simp add: sv_loop.simps [of env n v s])
      qed
    qed
  qed
qed

text \<open>
  Claim C10. \<open>_parse_status_vector\<close> assigns \<open>gds_code\<close> and \<open>num_arg\<close> only in the branch
  of a gds item, \<open>num_arg\<close> only when the code is not zero. A vector whose first item is a
  number item ends in a \<open>NameError\<close> once the number has been read; so does one whose
  first item is a string, interpreted or SQL state item, once the string has been read,
  and one where a gds item with code zero comes first and a number item next. A vector
  whose first item is a gds item with a nonzero code never ends in a \<open>NameError\<close>, whatever
  follows: from the moment both names are bound the loop raises only what the reads raise.
\<close>

theorem parse_status_vector_unbound:
  "(\<forall>b s1 c s2.
       recv_channel 4 False s = (Inr b, s1) \<and> bytes_to_bint b = isc_arg_number env
     \<and> isc_arg_number env \<noteq> isc_arg_end env \<and> isc_arg_number env \<noteq> isc_arg_gds env
     \<and> recv_channel 4 False s1 = (Inr c, s2)
     \<longrightarrow> parse_status_vector env s = (Inl NameError, s2))
 \<and> (\<forall>b s1 c s2 raw s3.
       recv_channel 4 False s = (Inr b, s1)
     \<and> bytes_to_bint b \<in> {isc_arg_string env, isc_arg_interpreted env, isc_arg_sql_state env}
     \<and> bytes_to_bint b \<notin> {isc_arg_end env, isc_arg_gds env, isc_arg_number env}
     \<and> recv_channel 4 False s1 = (Inr c, s2)
     \<and> recv_channel (bytes_to_bint c) True s2 = (Inr raw, s3)
     \<longrightarrow> parse_status_vector env s = (Inl NameError, s3))
 \<and> (\<forall>b s1 c s2 d s3 e s4.
       recv_channel 4 False s = (Inr b, s1) \<and> bytes_to_bint b = isc_arg_gds env
     \<and> isc_arg_gds env \<noteq> isc_arg_end env
     \<and> recv_channel 4 False s1 = (Inr c, s2) \<and> bytes_to_bint c = 0
     \<and> recv_channel 4 False s2 = (Inr d, s3) \<and> bytes_to_bint d = isc_arg_number env
     \<and> isc_arg_number env \<noteq> isc_arg_end env \<and> isc_arg_number env \<noteq> isc_arg_gds env
     \<and> recv_channel 4 False s3 = (Inr e, s4)
     \<longrightarrow> parse_status_vector env s = (Inl NameError, s4))
 \<and> (\<forall>b s1 c s2.
       recv_channel 4 False s = (Inr b, s1) \<and> bytes_to_bint b = isc_arg_gds env
     \<and> recv_channel 4 False s1 = (Inr c, s2) \<and> bytes_to_bint c \<noteq> 0
     \<longrightarrow> fst (parse_status_vector env s) \<noteq> Inl NameError)
 \<and> (\<forall>n v. gds_code v \<noteq> None \<and> num_arg v \<noteq> None
     \<longrightarrow> fst (sv_loop env n v s) \<noteq> Inl NameError)"
proof -
  let ?v0 = "\<lparr>sql_code = 0, gds_codes = {}, message = [], gds_code = None, num_arg = None\<rparr>"
  have p1: "parse_status_vector env s = (Inl NameError, s2)"
    if "recv_channel 4 False s = (Inr b, s1)" "bytes_to_bint b = isc_arg_number env"
       "isc_arg_number env \<noteq> isc_arg_end env" "isc_arg_number env \<noteq> isc_arg_gds env"
       "recv_channel 4 False s1 = (Inr c, s2)" for b s1 c s2
    using that
    by (simp add: parse_status_vector_def sv_loop.simps [of env "isc_arg_number env"] sv_item_def)
  have p2: "parse_status_vector env s = (Inl NameError, s3)"
    if "recv_channel 4 False s = (Inr b, s1)"
       "bytes_to_bint b \<in> {isc_arg_string env, isc_arg_interpreted env, isc_arg_sql_state env}"
       "bytes_to_bint b \<notin> {isc_arg_end env, isc_arg_gds env, isc_arg_number env}"
       "recv_channel 4 False s1 = (Inr c, s2)"
       "recv_channel (bytes_to_bint c) True s2 = (Inr raw, s3)" for b s1 c s2 raw s3
    using that
    by (simp add: parse_status_vector_def sv_loop.simps [of env "bytes_to_bint b"] sv_item_def)
  have p3: "parse_status_vector env s = (Inl NameError, s4)"
    if "recv_channel 4 False s = (Inr b, s1)" "bytes_to_bint b = isc_arg_gds env"
       "isc_arg_gds env \<noteq> isc_arg_end env"
       "recv_channel 4 False s1 = (Inr c, s2)" "bytes_to_bint c = 0"
       "recv_channel 4 False s2 = (Inr d, s3)" "bytes_to_bint d = isc_arg_number env"
       "isc_arg_number env \<noteq> isc_arg_end env" "isc_arg_number env \<noteq> isc_arg_gds env"
       "recv_channel 4 False s3 = (Inr e, s4)" for b s1 c s2 d s3 e s4
    using that
    by (simp add: parse_status_vector_def sv_loop.simps [of env "isc_arg_gds env"]
          sv_loop.simps [of env "isc_arg_number env"] sv_item_def)
  have p4: "fst (parse_status_vector env s) \<noteq> Inl NameError"
    if h: "recv_channel 4 False s = (Inr b, s1)" "bytes_to_bint b = isc_arg_gds env"
       "recv_channel 4 False s1 = (Inr c, s2)" "bytes_to_bint c \<noteq> 0" for b s1 c s2
  proof -
    let ?v1 = "?v0\<lparr>gds_code := Some (bytes_to_bint c),
                  gds_codes := insert (bytes_to_bint c) (gds_codes ?v0),
                  message := message ?v0 @ (case messages env (bytes_to_bint c) of
                                             None \<Rightarrow> ''@1'' | Some m \<Rightarrow> m),
                  num_arg := Some 0\<rparr>"
    have it: "sv_item env (isc_arg_gds env) ?v0 s1 = (Inr ?v1, s2)"
      using h by (simp add: sv_item_def Let_def)
    have lp: "fst (sv_loop env n ?v1 t) \<noteq> Inl NameError" for n t
      by (rule sv_loop_bound) simp_all
    have "fst (sv_loop env (isc_arg_gds env) ?v0 s1) \<noteq> Inl NameError"
    proof (cases "isc_arg_gds env = isc_arg_end env")
      case True
      then show ?thesis by (subst sv_loop.simps) simp
    next
      case False
      obtain r3 s3 where rc: "recv_channel 4 False s2 = (r3, s3)"
        by (cases "recv_channel 4 False s2")
      show ?thesis
      proof (cases r3)
        case (Inl e)
        then show ?thesis
          using False it rc recv_channel_error [of 4 False s2 e s3]
          by (auto simp: sv_loop.simps [of env "isc_arg_gds env" ?v0 s1])
      next
        case (Inr d)
        then show ?thesis
          using False it rc lp [of "bytes_to_bint d" s3]
          by (simp add: sv_loop.simps [of env "isc_arg_gds env" ?v0 s1])
      qed
    qed
    then show ?thesis
      using h by (auto simp: parse_status_vector_def split: prod.splits sum.splits)
  qed
  have p5: "fst (sv_loop env n v s) \<noteq> Inl NameError"
    if "gds_code v \<noteq> None" "num_arg v \<noteq> None" for n v
    using that by (rule sv_loop_bound)
  show ?thesis
  proof (intro conjI allI impI, goal_cases)
    case (1 b s1 c s2)
    then show ?case by (elim conjE) (rule p1)
  next
    case (2 b s1 c s2 raw s3)
    then show ?case by (elim conjE) (rule p2)
  next
    case (3 b s1 c s2 d s3 e s4)
    then show ?case by (elim conjE) (rule p3)
  next
    case (4 b s1 c s2)
    then show ?case by (elim conjE) (rule p4)
  next
    case (5 n v)
    then show ?case by (elim conjE) (rule p5)
  qed
qed

text \<open>
  The theorem on four streams, with the tags of the Firebird headers: a number item first,
  a string item first, a gds item with code zero and then a number item, and the vector
  gds 7, number 5, end.
\<close>

theorem parse_status_vector_unbound_witness:
  "parse_status_vector fb_env \<lparr>inbox = [Chunk [0, 0, 0, 4, 0, 0, 0, 7]], has_timeout = False\<rparr>
     = (Inl NameError, \<lparr>inbox = [], has_timeout = False\<rparr>)
 \<and> parse_status_vector fb_env
      \<lparr>inbox = [Chunk [0, 0, 0, 2, 0, 0, 0, 2, 97, 98, 0, 0]], has_timeout = False\<rparr>
     = (Inl NameError, \<lparr>inbox = [], has_timeout = False\<rparr>)
 \<and> parse_status_vector fb_env
      \<lparr>inbox = [Chunk [0, 0, 0, 1, 0, 0, 0, 0, 0, 0, 0, 4, 0, 0, 0, 7]], has_timeout = False\<rparr>
     = (Inl NameError, \<lparr>inbox = [], has_timeout = False\<rparr>)
 \<and> fst (parse_status_vector fb_env
      \<lparr>inbox = [Chunk [0, 0, 0, 1, 0, 0, 0, 7, 0, 0, 0, 4, 0, 0, 0, 5, 0, 0, 0, 0]],
        has_timeout = False\<rparr>) \<noteq> Inl NameError"
proof -
  let ?A = "\<lparr>inbox = [Chunk [0, 0, 0, 4, 0, 0, 0, 7]], has_timeout = False\<rparr>"
  let ?B = "\<lparr>inbox = [Chunk [0, 0, 0, 2, 0, 0, 0, 2, 97, 98, 0, 0]], has_timeout = False\<rparr>"
  let ?C = "\<lparr>inbox = [Chunk [0, 0, 0, 1, 0, 0, 0, 0, 0, 0, 0, 4, 0, 0, 0, 7]], has_timeout = False\<rparr>"
  let ?D = "\<lparr>inbox = [Chunk [0, 0, 0, 1, 0, 0, 0, 7, 0, 0, 0, 4, 0, 0, 0, 5, 0, 0, 0, 0]],
             has_timeout = False\<rparr>"
  have a: "parse_status_vector fb_env ?A = (Inl NameError, \<lparr>inbox = [], has_timeout = False\<rparr>)"
    using parse_status_vector_unbound [of ?A fb_env, THEN conjunct1]
    by (simp add: recv_channel_chunk padded_def bytes_to_bint_4 fb_env_def)
  have b: "parse_status_vector fb_env ?B = (Inl NameError, \<lparr>inbox = [], has_timeout = False\<rparr>)"
    using parse_status_vector_unbound [of ?B fb_env, THEN conjunct2, THEN conjunct1]
    by (simp add: recv_channel_chunk padded_def bytes_to_bint_4 fb_env_def)
  have c: "parse_status_vector fb_env ?C = (Inl NameError, \<lparr>inbox = [], has_timeout = False\<rparr>)"
    using parse_status_vector_unbound [of ?C fb_env, THEN conjunct2, THEN conjunct2, THEN conjunct1]
    by (simp add: recv_channel_chunk padded_def bytes_to_bint_4 fb_env_def)
  have d: "fst (parse_status_vector fb_env ?D) \<noteq> Inl NameError"
    using parse_status_vector_unbound [of ?D fb_env, THEN conjunct2, THEN conjunct2,
            THEN conjunct2, THEN conjunct1]
    by (simp add: recv_channel_chunk padded_def bytes_to_bint_4 fb_env_def)
  show ?thesis
    using a b c d by (intro conjI)
qed

end
